theory Spec2Isabelle
  imports Main "HOL-Library.AList" "HOL-Library.Sublist"
begin

section \<open>Python strings\<close>

text \<open>
  A Python \<open>str\<close> is modelled as a HOL \<open>string\<close>; each \<open>char\<close> stands for the code point
  of the same number, so the model covers text in the range U+0000 .. U+00FF. The
  character tables below are those of Python's \<open>str\<close> methods on that range.
\<close>

definition py_isspace :: "char \<Rightarrow> bool" where
  \<comment> \<open>\<open>str.isspace\<close>: TAB..CR, FS..US, SPACE, NEL (U+0085), NBSP (U+00A0).\<close>
  "py_isspace c =
     (let n = (of_char c :: nat)
      in (9 \<le> n \<and> n \<le> 13) \<or> (28 \<le> n \<and> n \<le> 32) \<or> n = 133 \<or> n = 160)"

definition py_strip :: "string \<Rightarrow> string" where
  "py_strip s = rev (dropWhile py_isspace (rev (dropWhile py_isspace s)))"

definition lower_char :: "char \<Rightarrow> char" where
  \<comment> \<open>A..Z and the Latin-1 capitals U+00C0..U+00DE (U+00D7 is the multiplication sign).\<close>
  "lower_char c =
     (let n = (of_char c :: nat)
      in if (65 \<le> n \<and> n \<le> 90) \<or> (192 \<le> n \<and> n \<le> 222 \<and> n \<noteq> 215)
         then char_of (n + 32) else c)"

definition py_lower :: "string \<Rightarrow> string" where
  "py_lower s = map lower_char s"

definition upper_char :: "char \<Rightarrow> string" where
  \<comment> \<open>a..z and U+00E0..U+00FE (U+00F7 is the division sign) move down by 32; the sharp s
      (U+00DF) becomes \<open>SS\<close>. The capitals of U+00B5 and U+00FF lie beyond U+00FF; they are
      kept as they are, which no test of \<open>stateOfResidence\<close> can tell apart: neither the
      character nor its capital is white space, an ASCII letter or part of a state code.\<close>
  "upper_char c =
     (let n = (of_char c :: nat)
      in if (97 \<le> n \<and> n \<le> 122) \<or> (224 \<le> n \<and> n \<le> 254 \<and> n \<noteq> 247)
         then [char_of (n - 32)]
         else if n = 223 then ''SS'' else [c])"

definition py_upper :: "string \<Rightarrow> string" where
  "py_upper s = concat (map upper_char s)"

definition ascii_digit :: "char \<Rightarrow> bool" where
  "ascii_digit c = (let n = (of_char c :: nat) in 48 \<le> n \<and> n \<le> 57)"

definition ascii_letter :: "char \<Rightarrow> bool" where
  "ascii_letter c =
     (let n = (of_char c :: nat) in (65 \<le> n \<and> n \<le> 90) \<or> (97 \<le> n \<and> n \<le> 122))"

definition isdigit_char :: "char \<Rightarrow> bool" where
  \<comment> \<open>\<open>str.isdigit\<close> also holds of the superscript digits U+00B2, U+00B3 and U+00B9.\<close>
  "isdigit_char c =
     (let n = (of_char c :: nat) in (48 \<le> n \<and> n \<le> 57) \<or> n = 178 \<or> n = 179 \<or> n = 185)"

definition py_isdigit :: "string \<Rightarrow> bool" where
  "py_isdigit s = (s \<noteq> [] \<and> list_all isdigit_char s)"

datatype exn = CancelRegistration string | EOFError | ValueError | TypeError | KeyError

definition digit_val :: "char \<Rightarrow> int" where
  "digit_val c = int (of_char c) - 48"

definition digits_val :: "string \<Rightarrow> int" where
  "digits_val s = foldl (\<lambda>acc c. 10 * acc + digit_val c) 0 s"

definition py_int :: "string \<Rightarrow> exn + int" where
  \<comment> \<open>\<open>int(text)\<close> on a text for which \<open>isdigit()\<close> holds, the one place the source calls
      it: decimal digits give their value, a superscript digit is not a decimal literal,
      and CPython refuses a literal of more than 4300 digits (the default of
      \<open>sys.set_int_max_str_digits\<close>).\<close>
  "py_int s =
     (if s \<noteq> [] \<and> list_all ascii_digit s \<and> length s \<le> 4300 then Inr (digits_val s)
      else Inl ValueError)"

definition digit_char :: "nat \<Rightarrow> char" where
  "digit_char d = char_of (48 + d)"

text \<open>\<open>str(n)\<close> of an integer: its decimal digits, after a minus sign when it is negative.\<close>

fun digits_of_nat :: "nat \<Rightarrow> string" where
  "digits_of_nat n =
     (if n < 10 then [digit_char n] else digits_of_nat (n div 10) @ [digit_char (n mod 10)])"

definition py_str :: "int \<Rightarrow> string" where
  "py_str i = (if i < 0 then CHR ''-'' # digits_of_nat (nat (- i)) else digits_of_nat (nat i))"

section \<open>Values, exceptions and outcomes\<close>

datatype pyval = VStr string | VInt int | VBool bool

text \<open>
  What one pass through the body of a prompt loop does with the line it read: return a
  value (\<open>Accepted\<close>), print the complaint and go round again (\<open>Retry\<close>), return \<open>None\<close>
  (\<open>CancelRequested\<close>), or let an exception escape (\<open>Raised\<close>).
\<close>

datatype 'a attempt = Accepted 'a | Retry | CancelRequested | Raised exn

type_synonym results = "(string \<times> pyval) list"

datatype outcome = Completed results | Cancelled string

text \<open>
  Standard input is the list of the lines still to be read; \<open>input()\<close> takes the first
  and raises \<open>EOFError\<close> when none is left.
\<close>

type_synonym script = "string list"

type_synonym getter = "script \<Rightarrow> (exn + pyval option) \<times> script"

type_synonym step = "string \<times> getter \<times> (pyval \<Rightarrow> exn + unit) option"

section \<open>Field validators\<close>

definition exit_requested :: "string \<Rightarrow> bool" where
  "exit_requested text = (py_lower (py_strip text) \<in> {''exit'', ''quit''})"

definition name_char :: "char \<Rightarrow> bool" where
  "name_char d = (ascii_letter d \<or> d = CHR '' '' \<or> d = CHR 0x27 \<or> d = CHR ''-'')"

definition name_pat :: "string \<Rightarrow> bool" where
  \<comment> \<open>\<open>fullmatch\<close> of \<open>[A-Za-z][A-Za-z '\-]*$\<close>\<close>
  "name_pat s = (case s of [] \<Rightarrow> False | c # cs \<Rightarrow> ascii_letter c \<and> list_all name_char cs)"

definition zip_pat :: "string \<Rightarrow> bool" where
  \<comment> \<open>\<open>fullmatch\<close> of \<open>\d{5}(-\d{4})?$\<close>; on this range \<open>\d\<close> is \<open>0\<close>..\<open>9\<close>\<close>
  "zip_pat s =
     (length (take 5 s) = 5 \<and> list_all ascii_digit (take 5 s) \<and>
      (case drop 5 s of [] \<Rightarrow> True
       | h # t \<Rightarrow> h = CHR ''-'' \<and> length t = 4 \<and> list_all ascii_digit t))"

definition yes_no :: "string \<Rightarrow> bool option" where
  "yes_no val =
     (let v = py_lower (py_strip val)
      in if v \<in> {''y'', ''yes''} then Some True
         else if v \<in> {''n'', ''no''} then Some False
         else None)"

definition isValidAge_body :: "string \<Rightarrow> pyval attempt" where
  "isValidAge_body raw =
     (let age = py_strip raw
      in if exit_requested age then CancelRequested
         else if py_isdigit age then
           (case py_int age of
              Inl e \<Rightarrow> Raised e
            | Inr n \<Rightarrow> if 0 \<le> n \<and> n \<le> 120 then Accepted (VInt n) else Retry)
         else Retry)"

definition firstName_body :: "string \<Rightarrow> pyval attempt" where
  "firstName_body raw =
     (let fName = py_strip raw
      in if exit_requested fName then CancelRequested
         else if name_pat fName then Accepted (VStr fName)
         else Retry)"

definition lastName_body :: "string \<Rightarrow> pyval attempt" where
  "lastName_body raw =
     (let lName = py_strip raw
      in if exit_requested lName then CancelRequested
         else if name_pat lName then Accepted (VStr lName)
         else Retry)"

definition countryOfCitizenship_body :: "string \<Rightarrow> pyval attempt" where
  "countryOfCitizenship_body raw =
     (let ans = py_strip raw
      in if exit_requested ans then CancelRequested
         else (case yes_no ans of Some yn \<Rightarrow> Accepted (VBool yn) | None \<Rightarrow> Retry))"

definition zipCode_body :: "string \<Rightarrow> pyval attempt" where
  "zipCode_body raw =
     (let zip_code = py_strip raw
      in if exit_requested zip_code then CancelRequested
         else if zip_pat zip_code then Accepted (VStr zip_code)
         else Retry)"

definition stateOfResidenceHM :: "(string \<times> string) list" where
  "stateOfResidenceHM =
    [
     (''Alabama'', ''AL''),
     (''Alaska'', ''AK''),
     (''Arizona'', ''AZ''),
     (''Arkansas'', ''AR''),
     (''California'', ''CA''),
     (''Colorado'', ''CO''),
     (''Connecticut'', ''CT''),
     (''Delaware'', ''DE''),
     (''Florida'', ''FL''),
     (''Georgia'', ''GA''),
     (''Hawaii'', ''HI''),
     (''Idaho'', ''ID''),
     (''Illinois'', ''IL''),
     (''Indiana'', ''IN''),
     (''Iowa'', ''IA''),
     (''Kansas'', ''KS''),
     (''Kentucky'', ''KY''),
     (''Louisiana'', ''LA''),
     (''Maine'', ''ME''),
     (''Maryland'', ''MD''),
     (''Massachusetts'', ''MA''),
     (''Michigan'', ''MI''),
     (''Minnesota'', ''MN''),
     (''Mississippi'', ''MS''),
     (''Missouri'', ''MO''),
     (''Montana'', ''MT''),
     (''Nebraska'', ''NE''),
     (''Nevada'', ''NV''),
     (''New Hampshire'', ''NH''),
     (''New Jersey'', ''NJ''),
     (''New Mexico'', ''NM''),
     (''New York'', ''NY''),
     (''North Carolina'', ''NC''),
     (''North Dakota'', ''ND''),
     (''Ohio'', ''OH''),
     (''Oklahoma'', ''OK''),
     (''Oregon'', ''OR''),
     (''Pennsylvania'', ''PA''),
     (''Rhode Island'', ''RI''),
     (''South Carolina'', ''SC''),
     (''South Dakota'', ''SD''),
     (''Tennessee'', ''TN''),
     (''Texas'', ''TX''),
     (''Utah'', ''UT''),
     (''Vermont'', ''VT''),
     (''Virginia'', ''VA''),
     (''Washington'', ''WA''),
     (''West Virginia'', ''WV''),
     (''Wisconsin'', ''WI''),
     (''Wyoming'', ''WY''),
     (''District of Columbia'', ''DC''),
     (''American Samoa'', ''AS''),
     (''Guam'', ''GU''),
     (''Northern Mariana Islands'', ''MP''),
     (''Puerto Rico'', ''PR''),
     (''United States Minor Outlying Islands'', ''UM''),
     (''Virgin Islands, U.S.'', ''VI'')
    ]"

definition stateOfResidence_body :: "string \<Rightarrow> pyval attempt" where
  "stateOfResidence_body raw =
     (let state = py_upper (py_strip raw)
      in if exit_requested state then CancelRequested
         else if length state = 2 \<and> state \<in> set (map snd stateOfResidenceHM)
           then Accepted (VStr state)
         else Retry)"

text \<open>The \<open>while True\<close> loop of every getter: one line of input for each pass.\<close>

fun getter_loop :: "(string \<Rightarrow> pyval attempt) \<Rightarrow> getter" where
  "getter_loop body [] = (Inl EOFError, [])"
| "getter_loop body (line # rest) =
     (case body line of
        Accepted v \<Rightarrow> (Inr (Some v), rest)
      | CancelRequested \<Rightarrow> (Inr None, rest)
      | Raised e \<Rightarrow> (Inl e, rest)
      | Retry \<Rightarrow> getter_loop body rest)"

definition isValidAge :: getter where
  "isValidAge = getter_loop isValidAge_body"

definition firstName :: getter where
  "firstName = getter_loop firstName_body"

definition lastName :: getter where
  "lastName = getter_loop lastName_body"

definition countryOfCitizenship :: getter where
  "countryOfCitizenship = getter_loop countryOfCitizenship_body"

definition zipCode :: getter where
  "zipCode = getter_loop zipCode_body"

definition stateOfResidence :: getter where
  "stateOfResidence = getter_loop stateOfResidence_body"

section \<open>The registration flow\<close>

text \<open>
  Of what the program prints, the model keeps what tells the two endings of \<open>main\<close> apart:
  the success summary, printed from the \<open>results\<close> dictionary (\<open>Completed\<close> with that
  dictionary), and the message of the \<open>CancelRegistration\<close> that \<open>main\<close> catches (\<open>Cancelled\<close>
  with that message). An exception that \<open>main\<close> does not catch ends the run with neither.
\<close>

definition initial_msg :: string where
  "initial_msg = ''Thanks for trying the Voter Registration Application. Goodbye!''"

definition default_msg :: string where
  \<comment> \<open>the default message of \<open>CancelRegistration\<close>\<close>
  "default_msg = ''Registration canceled. Goodbye!''"

definition guard_msg :: string where
  "guard_msg = ''Thanks for trying the Voter Registration Application.''"

fun ask_continue :: "script \<Rightarrow> (exn + bool) \<times> script" where
  "ask_continue [] = (Inl EOFError, [])"
| "ask_continue (line # rest) =
     (case yes_no (py_strip line) of
        Some yn \<Rightarrow> (Inr yn, rest)
      | None \<Rightarrow> ask_continue rest)"

definition continue_or_raise :: "bool \<Rightarrow> script \<Rightarrow> (exn + unit) \<times> script" where
  "continue_or_raise initial s =
     (case ask_continue s of
        (Inl e, s') \<Rightarrow> (Inl e, s')
      | (Inr yn, s') \<Rightarrow>
          if \<not> yn
          then (Inl (CancelRegistration (if initial then initial_msg else default_msg)), s')
          else (Inr (), s'))"

definition require :: "getter \<Rightarrow> script \<Rightarrow> (exn + pyval) \<times> script" where
  "require getter s =
     (case getter s of
        (Inl e, s') \<Rightarrow> (Inl e, s')
      | (Inr None, s') \<Rightarrow> (Inl (CancelRegistration default_msg), s')
      | (Inr (Some val), s') \<Rightarrow> (Inr val, s'))"

fun age_check :: "pyval \<Rightarrow> exn + unit" where
  "age_check (VInt v) = (if v < 18 then Inl (CancelRegistration guard_msg) else Inr ())"
| "age_check (VBool b) =
     (if (if b then 1 else 0) < (18::int) then Inl (CancelRegistration guard_msg) else Inr ())"
| "age_check (VStr s) = Inl TypeError"

fun truthy :: "pyval \<Rightarrow> bool" where
  "truthy (VBool b) = b"
| "truthy (VInt i) = (i \<noteq> 0)"
| "truthy (VStr s) = (s \<noteq> [])"

definition citizen_check :: "pyval \<Rightarrow> exn + unit" where
  "citizen_check v = (if \<not> truthy v then Inl (CancelRegistration guard_msg) else Inr ())"

definition steps :: "step list" where
  "steps =
    [(''first'', firstName, None),
     (''last'', lastName, None),
     (''age'', isValidAge, Some age_check),
     (''citizen'', countryOfCitizenship, Some citizen_check),
     (''state'', stateOfResidence, None),
     (''zip'', zipCode, None)]"

text \<open>
  The \<open>for\<close> loop over the steps. Its result carries the \<open>results\<close> dictionary as it
  stands when the loop ends or an exception leaves it, and the input left unread.
\<close>

fun steps_loop :: "step list \<Rightarrow> results \<Rightarrow> script \<Rightarrow> (exn + unit) \<times> results \<times> script" where
  "steps_loop [] results s = (Inr (), results, s)"
| "steps_loop ((key, getter, post_check) # more) results s =
     (case continue_or_raise False s of
        (Inl e, s1) \<Rightarrow> (Inl e, results, s1)
      | (Inr _, s1) \<Rightarrow>
          (case require getter s1 of
             (Inl e, s2) \<Rightarrow> (Inl e, results, s2)
           | (Inr val, s2) \<Rightarrow>
               (case (case post_check of None \<Rightarrow> Inr () | Some chk \<Rightarrow> chk val) of
                  Inl e \<Rightarrow> (Inl e, results, s2)
                | Inr _ \<Rightarrow> steps_loop more (AList.update key val results) s2)))"

definition summary :: "results \<Rightarrow> exn + unit" where
  \<comment> \<open>the success summary reads five entries of \<open>results\<close>; a missing key raises\<close>
  "summary r =
     (if list_all (\<lambda>k. map_of r k \<noteq> None) [''first'', ''last'', ''age'', ''state'', ''zip'']
      then Inr () else Inl KeyError)"

definition handler :: "exn \<Rightarrow> exn + outcome" where
  \<comment> \<open>\<open>except CancelRegistration as stop\<close>: every other exception leaves \<open>main\<close>\<close>
  "handler e = (case e of CancelRegistration msg \<Rightarrow> Inr (Cancelled msg) | _ \<Rightarrow> Inl e)"

definition main_run :: "script \<Rightarrow> (exn + outcome) \<times> results \<times> script" where
  "main_run s =
     (case continue_or_raise True s of
        (Inl e, s1) \<Rightarrow> (handler e, [], s1)
      | (Inr _, s1) \<Rightarrow>
          (case steps_loop steps [] s1 of
             (Inl e, r, s2) \<Rightarrow> (handler e, r, s2)
           | (Inr _, r, s2) \<Rightarrow>
               (case summary r of
                  Inl e \<Rightarrow> (handler e, r, s2)
                | Inr _ \<Rightarrow> (Inr (Completed r), r, s2))))"

definition main :: "script \<Rightarrow> exn + outcome" where
  "main s = fst (main_run s)"

section \<open>Facts about the string operations\<close>

lemma char_of_nat_eq: "char_of (n::nat) = c \<longleftrightarrow> n mod 256 = of_char c"
  by (simp add: char_of_eq_iff take_bit_eq_mod)

lemma dropWhile_hd: "dropWhile P xs \<noteq> [] \<Longrightarrow> \<not> P (hd (dropWhile P xs))"
  by (metis hd_dropWhile)

lemma py_strip_id:
  assumes "s \<noteq> []" "\<not> py_isspace (hd s)" "\<not> py_isspace (last s)"
  shows "py_strip s = s"
proof -
  have a: "dropWhile py_isspace s = s"
    using assms(1,2) by (cases s) auto
  have "rev s \<noteq> []" "\<not> py_isspace (hd (rev s))"
    using assms(1,3) by (auto simp: hd_rev)
  then have "dropWhile py_isspace (rev s) = rev s"
    by (cases "rev s") auto
  with a show ?thesis by (simp add: py_strip_def)
qed

lemma py_strip_ends:
  assumes "py_strip s \<noteq> []"
  shows "\<not> py_isspace (hd (py_strip s))" "\<not> py_isspace (last (py_strip s))"
proof -
  let ?ys = "dropWhile py_isspace s"
  let ?zs = "dropWhile py_isspace (rev ?ys)"
  have zs: "?zs \<noteq> []" using assms by (simp add: py_strip_def)
  then have "\<not> py_isspace (hd ?zs)" by (rule dropWhile_hd)
  then show "\<not> py_isspace (last (py_strip s))"
    using zs by (simp add: py_strip_def last_rev)
  have ys: "?ys \<noteq> []"
  proof
    assume "?ys = []"
    then have "?zs = []" by (metis dropWhile.simps(1) rev.simps(1))
    with zs show False by simp
  qed
  then have h: "\<not> py_isspace (hd ?ys)" by (rule dropWhile_hd)
  obtain ws where ws: "rev ?ys = ws @ ?zs"
    by (metis takeWhile_dropWhile_id)
  then have "?ys = rev ?zs @ rev ws" by (metis rev_append rev_rev_ident)
  then have "hd ?ys = hd (rev ?zs)" using zs by (metis hd_append2 rev_is_Nil_conv)
  with h show "\<not> py_isspace (hd (py_strip s))" by (simp add: py_strip_def)
qed

lemma py_strip_idem: "py_strip (py_strip s) = py_strip s"
proof (cases "py_strip s = []")
  case True
  then have "py_strip (py_strip s) = py_strip []" by simp
  also have "\<dots> = []" by (simp add: py_strip_def)
  finally show ?thesis using True by simp
next
  case False
  then show ?thesis using py_strip_ends [OF False] by (intro py_strip_id)
qed

lemma exit_requested_strip: "exit_requested (py_strip s) = exit_requested s"
  by (simp add: exit_requested_def py_strip_idem)

lemma yes_no_strip: "yes_no (py_strip s) = yes_no s"
  by (simp add: yes_no_def py_strip_idem)

section \<open>Evaluating a run\<close>

lemmas run_defs =
  main_def main_run_def handler_def summary_def steps_def continue_or_raise_def require_def
  firstName_def lastName_def isValidAge_def countryOfCitizenship_def stateOfResidence_def
  zipCode_def firstName_body_def lastName_body_def isValidAge_body_def
  countryOfCitizenship_body_def stateOfResidence_body_def zipCode_body_def
  exit_requested_def yes_no_def name_pat_def name_char_def zip_pat_def citizen_check_def
  py_strip_def py_lower_def py_upper_def py_isspace_def lower_char_def upper_char_def
  ascii_digit_def ascii_letter_def py_isdigit_def isdigit_char_def py_int_def digits_val_def
  digit_val_def stateOfResidenceHM_def char_of_nat_eq initial_msg_def default_msg_def
  guard_msg_def

section \<open>Scenario A\<close>

text \<open>
  C1. The continuation question is asked once before the first step and once more before
  each of the six steps. When every one of these is answered \<open>yes\<close> and the six fields are
  answered \<open>Ann\<close>, \<open>Lee\<close>, \<open>25\<close>, \<open>yes\<close>, \<open>MD\<close> and \<open>21201\<close>, the run ends \<open>Completed\<close>
  with the record first = Ann, last = Lee, age = 25, citizen = True, state = MD,
  zip = 21201.
\<close>

theorem scenario_A_completed:
  "main [''yes'', ''yes'', ''Ann'', ''yes'', ''Lee'', ''yes'', ''25'', ''yes'', ''yes'',
         ''yes'', ''MD'', ''yes'', ''21201'']
   = Inr (Completed [(''first'', VStr ''Ann''), (''last'', VStr ''Lee''), (''age'', VInt 25),
                     (''citizen'', VBool True), (''state'', VStr ''MD''),
                     (''zip'', VStr ''21201'')])"
  by (simp add: run_defs)

section \<open>The continuation question\<close>

lemma ask_continue_Cons:
  "ask_continue (line # rest) =
     (case yes_no line of Some yn \<Rightarrow> (Inr yn, rest) | None \<Rightarrow> ask_continue rest)"
  by (simp add: yes_no_strip)

lemma yes_no_cases:
  "yes_no line =
     (if py_lower (py_strip line) \<in> {''y'', ''yes''} then Some True
      else if py_lower (py_strip line) \<in> {''n'', ''no''} then Some False else None)"
  by (simp add: yes_no_def Let_def)

lemma exit_requested_yes_no: "exit_requested raw \<Longrightarrow> yes_no raw = None"
  by (auto simp: exit_requested_def yes_no_cases)

lemma ask_continue_dropWhile:
  "ask_continue s =
     (case dropWhile (\<lambda>l. py_lower (py_strip l) \<notin> {''y'', ''yes'', ''n'', ''no''}) s of
        [] \<Rightarrow> (Inl EOFError, [])
      | l # rest \<Rightarrow> (Inr (py_lower (py_strip l) \<in> {''y'', ''yes''}), rest))"
proof (induction s)
  case Nil
  show ?case by simp
next
  case (Cons line rest)
  show ?case
    unfolding ask_continue_Cons using Cons.IH
    by (auto simp: yes_no_cases)
qed

lemma ask_continue_result:
  "ask_continue s = (x, s') \<Longrightarrow> (x = Inl EOFError \<and> s' = []) \<or> (\<exists>yn. x = Inr yn)"
  by (induction s) (auto split: option.splits)

text \<open>
  C9. At the continuation question a line whose trimmed, lower-cased form is \<open>exit\<close> or
  \<open>quit\<close> is no answer: \<open>yes_no\<close> rejects it and the question is asked again on the
  next line. The question is repeated until a line whose trimmed, lower-cased form is
  \<open>y\<close>, \<open>yes\<close>, \<open>n\<close> or \<open>no\<close> arrives, and \<open>CancelRegistration\<close> is raised exactly when
  that line is \<open>n\<close> or \<open>no\<close>.
\<close>

theorem confirm_prompt_has_no_exit_token:
  assumes "exit_requested raw"
  shows "yes_no raw = None \<and>
         ask_continue (raw # rest) = ask_continue rest \<and>
         continue_or_raise initial (raw # rest) = continue_or_raise initial rest \<and>
         continue_or_raise initial s =
           (case dropWhile (\<lambda>l. py_lower (py_strip l) \<notin> {''y'', ''yes'', ''n'', ''no''}) s of
              [] \<Rightarrow> (Inl EOFError, [])
            | l # rest' \<Rightarrow>
                if py_lower (py_strip l) \<in> {''n'', ''no''}
                then (Inl (CancelRegistration (if initial then initial_msg else default_msg)), rest')
                else (Inr (), rest'))"
proof -
  have a: "yes_no raw = None" using assms by (rule exit_requested_yes_no)
  then have b: "ask_continue (raw # rest) = ask_continue rest"
    by (simp add: yes_no_strip)
  then have c: "continue_or_raise initial (raw # rest) = continue_or_raise initial rest"
    by (simp only: continue_or_raise_def)
  define P where "P = (\<lambda>l. py_lower (py_strip l) \<notin> {''y'', ''yes'', ''n'', ''no''})"
  have ac: "ask_continue s =
     (case dropWhile P s of
        [] \<Rightarrow> (Inl EOFError, [])
      | l # rest \<Rightarrow> (Inr (py_lower (py_strip l) \<in> {''y'', ''yes''}), rest))"
    unfolding P_def by (rule ask_continue_dropWhile)
  have d: "continue_or_raise initial s =
           (case dropWhile P s of
              [] \<Rightarrow> (Inl EOFError, [])
            | l # rest' \<Rightarrow>
                if py_lower (py_strip l) \<in> {''n'', ''no''}
                then (Inl (CancelRegistration (if initial then initial_msg else default_msg)), rest')
                else (Inr (), rest'))"
  proof (cases "dropWhile P s")
    case Nil
    show ?thesis
      unfolding continue_or_raise_def ac Nil by simp
  next
    case (Cons l rest')
    then have "\<not> P l" by (simp add: dropWhile_eq_Cons_conv)
    then have "py_lower (py_strip l) \<in> {''y'', ''yes''}
                 \<longleftrightarrow> py_lower (py_strip l) \<notin> {''n'', ''no''}"
      by (auto simp: P_def)
    then show ?thesis
      unfolding continue_or_raise_def ac Cons by simp
  qed
  from a b c d show ?thesis unfolding P_def by blast
qed

theorem confirm_prompt_has_no_exit_token_witness:
  "exit_requested ''Exit'' \<and> yes_no ''Exit'' = None \<and>
   ask_continue [''Exit'', ''no''] = ask_continue [''no''] \<and>
   continue_or_raise False [''Exit'', ''no''] = continue_or_raise False [''no''] \<and>
   continue_or_raise False [''quit'', ''maybe'', '' No '', ''Ann'']
     = (Inl (CancelRegistration default_msg), [''Ann''])"
proof -
  have h: "exit_requested ''Exit''" by (simp add: run_defs)
  show ?thesis
    using h confirm_prompt_has_no_exit_token
      [OF h, of "[''no'']" False "[''quit'', ''maybe'', '' No '', ''Ann'']"]
    by (simp add: run_defs)
qed

section \<open>Facts about the prompt loops\<close>

lemma getter_loop_Some:
  "getter_loop body s = (Inr (Some v), s') \<Longrightarrow>
     \<exists>pre line. s = pre @ line # s' \<and> body line = Accepted v"
proof (induction s)
  case Nil
  then show ?case by simp
next
  case (Cons l ls)
  show ?case
  proof (cases "body l")
    case (Accepted w)
    with Cons.prems have "w = v" "ls = s'" by auto
    with Accepted have "l # ls = [] @ l # s' \<and> body l = Accepted v" by simp
    then show ?thesis by blast
  next
    case Retry
    with Cons.prems have "getter_loop body ls = (Inr (Some v), s')" by simp
    from Cons.IH [OF this] obtain pre line where "ls = pre @ line # s'" "body line = Accepted v"
      by blast
    then have "l # ls = (l # pre) @ line # s' \<and> body line = Accepted v" by simp
    then show ?thesis by blast
  next
    case CancelRequested
    with Cons.prems show ?thesis by simp
  next
    case (Raised e)
    with Cons.prems show ?thesis by simp
  qed
qed

lemma getter_loop_None:
  "getter_loop body s = (Inr None, s') \<Longrightarrow>
     \<exists>pre line. s = pre @ line # s' \<and> body line = CancelRequested"
proof (induction s)
  case Nil
  then show ?case by simp
next
  case (Cons l ls)
  show ?case
  proof (cases "body l")
    case (Accepted w)
    with Cons.prems show ?thesis by simp
  next
    case Retry
    with Cons.prems have "getter_loop body ls = (Inr None, s')" by simp
    from Cons.IH [OF this] obtain pre line where "ls = pre @ line # s'" "body line = CancelRequested"
      by blast
    then have "l # ls = (l # pre) @ line # s' \<and> body line = CancelRequested" by simp
    then show ?thesis by blast
  next
    case CancelRequested
    with Cons.prems have "ls = s'" by auto
    with CancelRequested have "l # ls = [] @ l # s' \<and> body l = CancelRequested" by simp
    then show ?thesis by blast
  next
    case (Raised e)
    with Cons.prems show ?thesis by simp
  qed
qed

lemma getter_loop_Inl:
  "getter_loop body s = (Inl e, s') \<Longrightarrow>
     (e = EOFError \<and> s' = []) \<or> (\<exists>pre line. s = pre @ line # s' \<and> body line = Raised e)"
proof (induction s)
  case Nil
  then show ?case by simp
next
  case (Cons l ls)
  show ?case
  proof (cases "body l")
    case (Accepted w)
    with Cons.prems show ?thesis by simp
  next
    case Retry
    with Cons.prems have "getter_loop body ls = (Inl e, s')" by simp
    from Cons.IH [OF this] show ?thesis
    proof
      assume "e = EOFError \<and> s' = []"
      then show ?thesis by simp
    next
      assume "\<exists>pre line. ls = pre @ line # s' \<and> body line = Raised e"
      then obtain pre line where "ls = pre @ line # s'" "body line = Raised e" by blast
      then have "l # ls = (l # pre) @ line # s' \<and> body line = Raised e" by simp
      then show ?thesis by blast
    qed
  next
    case CancelRequested
    with Cons.prems show ?thesis by simp
  next
    case (Raised e')
    with Cons.prems have "e' = e" "ls = s'" by auto
    with Raised have "l # ls = [] @ l # s' \<and> body l = Raised e" by simp
    then show ?thesis by blast
  qed
qed

lemma getter_loop_Cancel:
  "body line = CancelRequested \<Longrightarrow> getter_loop body (line # rest) = (Inr None, rest)"
  by simp

lemma ask_continue_split:
  "ask_continue s = (Inr yn, s') \<Longrightarrow> \<exists>pre line. s = pre @ line # s' \<and> yes_no line = Some yn"
proof (induction s)
  case Nil
  then show ?case by simp
next
  case (Cons l ls)
  show ?case
  proof (cases "yes_no l")
    case None
    with Cons.prems have "ask_continue ls = (Inr yn, s')" by (simp add: yes_no_strip)
    from Cons.IH [OF this] obtain pre line where "ls = pre @ line # s'" "yes_no line = Some yn"
      by blast
    then have "l # ls = (l # pre) @ line # s' \<and> yes_no line = Some yn" by simp
    then show ?thesis by blast
  next
    case (Some b)
    with Cons.prems have "b = yn" "ls = s'" by (auto simp: yes_no_strip)
    with Some have "l # ls = [] @ l # s' \<and> yes_no l = Some yn" by simp
    then show ?thesis by blast
  qed
qed

lemma continue_or_raise_cases:
  "continue_or_raise initial s = (x, s') \<Longrightarrow>
     (x = Inl EOFError \<and> s' = []) \<or>
     (x = Inl (CancelRegistration (if initial then initial_msg else default_msg))
        \<and> ask_continue s = (Inr False, s')) \<or>
     (x = Inr () \<and> ask_continue s = (Inr True, s'))"
  unfolding continue_or_raise_def
  by (cases "ask_continue s") (auto dest: ask_continue_result split: sum.splits if_splits)

lemma continue_or_raise_Inr:
  "continue_or_raise initial s = (Inr u, s') \<Longrightarrow> \<exists>pre line. s = pre @ line # s'"
  by (metis continue_or_raise_cases ask_continue_split sum.distinct(1))

section \<open>Facts about the validators and the step loop\<close>

lemma firstName_body_Accepted:
  "firstName_body raw = Accepted v \<Longrightarrow> v = VStr (py_strip raw) \<and> name_pat (py_strip raw)"
  by (auto simp: firstName_body_def Let_def split: if_splits)

lemma lastName_body_Accepted:
  "lastName_body raw = Accepted v \<Longrightarrow> v = VStr (py_strip raw) \<and> name_pat (py_strip raw)"
  by (auto simp: lastName_body_def Let_def split: if_splits)

lemma isValidAge_body_Accepted:
  "isValidAge_body raw = Accepted v \<Longrightarrow>
     \<exists>n. v = VInt n \<and> 0 \<le> n \<and> n \<le> 120 \<and> py_int (py_strip raw) = Inr n"
  by (auto simp: isValidAge_body_def Let_def split: if_splits sum.splits)

lemma countryOfCitizenship_body_Accepted:
  "countryOfCitizenship_body raw = Accepted v \<Longrightarrow> \<exists>yn. v = VBool yn \<and> yes_no raw = Some yn"
  by (auto simp: countryOfCitizenship_body_def Let_def yes_no_strip split: if_splits option.splits)

lemma stateOfResidence_body_Accepted:
  "stateOfResidence_body raw = Accepted v \<Longrightarrow>
     \<exists>st. v = VStr st \<and> length st = 2 \<and> st \<in> set (map snd stateOfResidenceHM)"
  by (auto simp: stateOfResidence_body_def Let_def split: if_splits)

lemma zipCode_body_Accepted:
  "zipCode_body raw = Accepted v \<Longrightarrow> v = VStr (py_strip raw) \<and> zip_pat (py_strip raw)"
  by (auto simp: zipCode_body_def Let_def split: if_splits)

lemma firstName_body_Raised: "firstName_body raw \<noteq> Raised e"
  by (auto simp: firstName_body_def Let_def split: if_splits)

lemma lastName_body_Raised: "lastName_body raw \<noteq> Raised e"
  by (auto simp: lastName_body_def Let_def split: if_splits)

lemma isValidAge_body_Raised: "isValidAge_body raw = Raised e \<Longrightarrow> e = ValueError"
  by (auto simp: isValidAge_body_def Let_def py_int_def split: if_splits sum.splits)

lemma countryOfCitizenship_body_Raised: "countryOfCitizenship_body raw \<noteq> Raised e"
  by (auto simp: countryOfCitizenship_body_def Let_def split: if_splits option.splits)

lemma stateOfResidence_body_Raised: "stateOfResidence_body raw \<noteq> Raised e"
  by (auto simp: stateOfResidence_body_def Let_def split: if_splits)

lemma zipCode_body_Raised: "zipCode_body raw \<noteq> Raised e"
  by (auto simp: zipCode_body_def Let_def split: if_splits)

text \<open>One pass of the step loop that goes on to the next step.\<close>

lemma steps_loop_step_Inr:
  assumes "steps_loop ((key, getter_loop body, chk) # more) r s = (Inr u, r', s')"
  shows "\<exists>pre line v s1.
           s = pre @ line # s1 \<and> body line = Accepted v \<and>
           (case chk of None \<Rightarrow> Inr () | Some c \<Rightarrow> c v) = Inr () \<and>
           steps_loop more (AList.update key v r) s1 = (Inr u, r', s')"
proof -
  from assms obtain sa where a: "continue_or_raise False s = (Inr (), sa)"
    by (auto split: prod.splits sum.splits)
  with assms obtain v s1 where b: "require (getter_loop body) sa = (Inr v, s1)"
    by (auto split: prod.splits sum.splits)
  with a assms have c: "(case chk of None \<Rightarrow> Inr () | Some c \<Rightarrow> c v) = Inr ()"
    and d: "steps_loop more (AList.update key v r) s1 = (Inr u, r', s')"
    by (auto split: prod.splits sum.splits)
  from b have "getter_loop body sa = (Inr (Some v), s1)"
    by (auto simp: require_def split: prod.splits sum.splits option.splits)
  then obtain p1 line where e: "sa = p1 @ line # s1" "body line = Accepted v"
    using getter_loop_Some by blast
  from a obtain p0 l0 where "s = p0 @ l0 # sa"
    using continue_or_raise_Inr by blast
  with e have "s = (p0 @ l0 # p1) @ line # s1" by simp
  with e(2) c d show ?thesis by blast
qed

lemma handler_Completed: "handler e \<noteq> Inr (Completed r)"
  by (cases e) (simp_all add: handler_def)

lemma main_run_Completed:
  assumes "main_run s = (Inr (Completed r), r2, s')"
  shows "\<exists>s0. continue_or_raise True s = (Inr (), s0) \<and>
              steps_loop steps [] s0 = (Inr (), r, s') \<and> r2 = r"
  using assms unfolding main_run_def
  by (auto simp: handler_Completed split: prod.splits sum.splits)

lemma subseq_step: "subseq xs ys \<Longrightarrow> subseq (x # xs) (pre @ x # ys)"
  by (rule list_emb_append2) (rule subseq_Cons2)

lemma steps_loop_steps_Inr:
  assumes "steps_loop steps [] s0 = (Inr u, r, s')"
  shows "\<exists>rf rl ra rc rs rz vf vl va vc vs vz.
           firstName_body rf = Accepted vf \<and> lastName_body rl = Accepted vl \<and>
           isValidAge_body ra = Accepted va \<and> age_check va = Inr () \<and>
           countryOfCitizenship_body rc = Accepted vc \<and> citizen_check vc = Inr () \<and>
           stateOfResidence_body rs = Accepted vs \<and> zipCode_body rz = Accepted vz \<and>
           r = [(''first'', vf), (''last'', vl), (''age'', va), (''citizen'', vc),
                (''state'', vs), (''zip'', vz)] \<and>
           subseq [rf, rl, ra, rc, rs, rz] s0"
proof -
  note defs = firstName_def lastName_def isValidAge_def countryOfCitizenship_def
    stateOfResidence_def zipCode_def
  from assms [unfolded steps_def defs]
  obtain p1 rf vf s1 where 1: "s0 = p1 @ rf # s1" "firstName_body rf = Accepted vf"
    and n1: "steps_loop
       [(''last'', getter_loop lastName_body, None),
        (''age'', getter_loop isValidAge_body, Some age_check),
        (''citizen'', getter_loop countryOfCitizenship_body, Some citizen_check),
        (''state'', getter_loop stateOfResidence_body, None),
        (''zip'', getter_loop zipCode_body, None)] (AList.update ''first'' vf []) s1 = (Inr u, r, s')"
    by (blast dest: steps_loop_step_Inr)
  from steps_loop_step_Inr [OF n1]
  obtain p2 rl vl s2 where 2: "s1 = p2 @ rl # s2" "lastName_body rl = Accepted vl"
    and n2: "steps_loop
       [(''age'', getter_loop isValidAge_body, Some age_check),
        (''citizen'', getter_loop countryOfCitizenship_body, Some citizen_check),
        (''state'', getter_loop stateOfResidence_body, None),
        (''zip'', getter_loop zipCode_body, None)]
        (AList.update ''last'' vl (AList.update ''first'' vf [])) s2 = (Inr u, r, s')"
    by blast
  from steps_loop_step_Inr [OF n2]
  obtain p3 ra va s3 where 3: "s2 = p3 @ ra # s3" "isValidAge_body ra = Accepted va"
    "age_check va = Inr ()"
    and n3: "steps_loop
       [(''citizen'', getter_loop countryOfCitizenship_body, Some citizen_check),
        (''state'', getter_loop stateOfResidence_body, None),
        (''zip'', getter_loop zipCode_body, None)]
        (AList.update ''age'' va (AList.update ''last'' vl (AList.update ''first'' vf []))) s3
        = (Inr u, r, s')"
    by auto
  from steps_loop_step_Inr [OF n3]
  obtain p4 rc vc s4 where 4: "s3 = p4 @ rc # s4" "countryOfCitizenship_body rc = Accepted vc"
    "citizen_check vc = Inr ()"
    and n4: "steps_loop
       [(''state'', getter_loop stateOfResidence_body, None),
        (''zip'', getter_loop zipCode_body, None)]
        (AList.update ''citizen'' vc (AList.update ''age'' va
          (AList.update ''last'' vl (AList.update ''first'' vf [])))) s4
        = (Inr u, r, s')"
    by auto
  from steps_loop_step_Inr [OF n4]
  obtain p5 rs vs s5 where 5: "s4 = p5 @ rs # s5" "stateOfResidence_body rs = Accepted vs"
    and n5: "steps_loop
       [(''zip'', getter_loop zipCode_body, None)]
        (AList.update ''state'' vs (AList.update ''citizen'' vc (AList.update ''age'' va
          (AList.update ''last'' vl (AList.update ''first'' vf []))))) s5
        = (Inr u, r, s')"
    by blast
  from steps_loop_step_Inr [OF n5]
  obtain p6 rz vz s6 where 6: "s5 = p6 @ rz # s6" "zipCode_body rz = Accepted vz"
    and n6: "steps_loop []
        (AList.update ''zip'' vz (AList.update ''state'' vs (AList.update ''citizen'' vc
          (AList.update ''age'' va (AList.update ''last'' vl (AList.update ''first'' vf []))))))
        s6 = (Inr u, r, s')"
    by blast
  from n6 have r: "r = [(''first'', vf), (''last'', vl), (''age'', va), (''citizen'', vc),
                (''state'', vs), (''zip'', vz)]"
    by simp
  have "subseq [rf, rl, ra, rc, rs, rz] s0"
    unfolding 1(1) 2(1) 3(1) 4(1) 5(1) 6(1)
    by (intro subseq_step) simp
  with 1 2 3 4 5 6 r show ?thesis by blast
qed

lemma require_Inl:
  assumes "require (getter_loop body) s = (Inl e, s')"
  shows "e = EOFError \<or> e = CancelRegistration default_msg \<or> (\<exists>line. body line = Raised e)"
proof (cases "getter_loop body s")
  case (Pair x t)
  show ?thesis
  proof (cases x)
    case (Inl e')
    with Pair assms have "getter_loop body s = (Inl e, s')" by (simp add: require_def)
    from getter_loop_Inl [OF this] show ?thesis by blast
  next
    case (Inr ov)
    with Pair assms show ?thesis by (cases ov) (simp_all add: require_def)
  qed
qed

lemma require_Inr:
  assumes "require (getter_loop body) s = (Inr v, s')"
  shows "\<exists>pre line. s = pre @ line # s' \<and> body line = Accepted v"
proof -
  from assms have "getter_loop body s = (Inr (Some v), s')"
    by (auto simp: require_def split: prod.splits sum.splits option.splits)
  then show ?thesis by (rule getter_loop_Some)
qed

lemma steps_loop_step_Inl:
  assumes "steps_loop ((key, getter_loop body, chk) # more) r s = (Inl e, r', s')"
  shows "e = EOFError \<or> e = CancelRegistration default_msg \<or>
         (\<exists>line. body line = Raised e) \<or>
         (\<exists>line v c. body line = Accepted v \<and> chk = Some c \<and> c v = Inl e) \<or>
         (\<exists>line v s1. body line = Accepted v \<and>
            (case chk of None \<Rightarrow> Inr () | Some c \<Rightarrow> c v) = Inr () \<and>
            steps_loop more (AList.update key v r) s1 = (Inl e, r', s'))"
proof (cases "continue_or_raise False s")
  case (Pair x sa)
  show ?thesis
  proof (cases x)
    case (Inl e')
    with Pair assms have "e' = e" by simp
    with Inl Pair continue_or_raise_cases [of False s x sa] show ?thesis by auto
  next
    case (Inr u)
    note a = Pair [unfolded Inr]
    show ?thesis
    proof (cases "require (getter_loop body) sa")
      case (Pair y s1)
      show ?thesis
      proof (cases y)
        case (Inl e')
        with Pair a assms have "e' = e" by simp
        with Inl Pair require_Inl [of body sa e s1] show ?thesis by auto
      next
        case (Inr v)
        note b = Pair [unfolded Inr]
        from require_Inr [OF b] obtain line where l: "body line = Accepted v" by blast
        show ?thesis
        proof (cases "case chk of None \<Rightarrow> Inr () | Some c \<Rightarrow> c v")
          case (Inl e')
          with a b assms have "e' = e" by simp
          with Inl obtain c where "chk = Some c" "c v = Inl e"
            by (cases chk) auto
          with l show ?thesis by blast
        next
          case (Inr w)
          with a b assms have "steps_loop more (AList.update key v r) s1 = (Inl e, r', s')"
            by simp
          with l Inr show ?thesis by auto
        qed
      qed
    qed
  qed
qed

lemma age_check_Inl: "age_check (VInt n) = Inl e \<Longrightarrow> e = CancelRegistration guard_msg"
  by (simp split: if_splits)

lemma citizen_check_Inl: "citizen_check v = Inl e \<Longrightarrow> e = CancelRegistration guard_msg"
  by (simp add: citizen_check_def split: if_splits)

lemma tail6_Inl:
  assumes "steps_loop [(''zip'', getter_loop zipCode_body, None)] r s = (Inl e, r', s')"
  shows "e \<in> {EOFError, ValueError, CancelRegistration default_msg, CancelRegistration guard_msg}"
  using steps_loop_step_Inl [OF assms] by (auto simp: zipCode_body_Raised)

lemma tail5_Inl:
  assumes "steps_loop [(''state'', getter_loop stateOfResidence_body, None),
                       (''zip'', getter_loop zipCode_body, None)] r s = (Inl e, r', s')"
  shows "e \<in> {EOFError, ValueError, CancelRegistration default_msg, CancelRegistration guard_msg}"
  using steps_loop_step_Inl [OF assms]
  by (auto simp: stateOfResidence_body_Raised simp del: steps_loop.simps dest: tail6_Inl)

lemma tail4_Inl:
  assumes "steps_loop [(''citizen'', getter_loop countryOfCitizenship_body, Some citizen_check),
                       (''state'', getter_loop stateOfResidence_body, None),
                       (''zip'', getter_loop zipCode_body, None)] r s = (Inl e, r', s')"
  shows "e \<in> {EOFError, ValueError, CancelRegistration default_msg, CancelRegistration guard_msg}"
  using steps_loop_step_Inl [OF assms]
  by (auto simp: countryOfCitizenship_body_Raised simp del: steps_loop.simps age_check.simps
        dest: tail5_Inl citizen_check_Inl)

lemma tail3_Inl:
  assumes "steps_loop [(''age'', getter_loop isValidAge_body, Some age_check),
                       (''citizen'', getter_loop countryOfCitizenship_body, Some citizen_check),
                       (''state'', getter_loop stateOfResidence_body, None),
                       (''zip'', getter_loop zipCode_body, None)] r s = (Inl e, r', s')"
  shows "e \<in> {EOFError, ValueError, CancelRegistration default_msg, CancelRegistration guard_msg}"
  using steps_loop_step_Inl [OF assms]
  by (auto simp del: steps_loop.simps age_check.simps
        dest: tail4_Inl age_check_Inl isValidAge_body_Raised dest!: isValidAge_body_Accepted)

lemma tail2_Inl:
  assumes "steps_loop [(''last'', getter_loop lastName_body, None),
                       (''age'', getter_loop isValidAge_body, Some age_check),
                       (''citizen'', getter_loop countryOfCitizenship_body, Some citizen_check),
                       (''state'', getter_loop stateOfResidence_body, None),
                       (''zip'', getter_loop zipCode_body, None)] r s = (Inl e, r', s')"
  shows "e \<in> {EOFError, ValueError, CancelRegistration default_msg, CancelRegistration guard_msg}"
  using steps_loop_step_Inl [OF assms]
  by (auto simp: lastName_body_Raised simp del: steps_loop.simps dest: tail3_Inl)

lemma steps_loop_steps_Inl:
  assumes "steps_loop steps r s = (Inl e, r', s')"
  shows "e \<in> {EOFError, ValueError, CancelRegistration default_msg, CancelRegistration guard_msg}"
  using steps_loop_step_Inl
    [OF assms [unfolded steps_def firstName_def lastName_def isValidAge_def
        countryOfCitizenship_def stateOfResidence_def zipCode_def]]
  by (auto simp: firstName_body_Raised simp del: steps_loop.simps dest: tail2_Inl)

lemma steps_loop_steps_shape:
  assumes "steps_loop steps [] s0 = (Inr u, r, s')"
  shows "\<exists>rf rl ra rc rs rz age st.
           firstName_body rf = Accepted (VStr (py_strip rf)) \<and>
           lastName_body rl = Accepted (VStr (py_strip rl)) \<and>
           isValidAge_body ra = Accepted (VInt age) \<and> age_check (VInt age) = Inr () \<and>
           countryOfCitizenship_body rc = Accepted (VBool True) \<and>
           citizen_check (VBool True) = Inr () \<and>
           stateOfResidence_body rs = Accepted (VStr st) \<and>
           zipCode_body rz = Accepted (VStr (py_strip rz)) \<and>
           r = [(''first'', VStr (py_strip rf)), (''last'', VStr (py_strip rl)),
                (''age'', VInt age), (''citizen'', VBool True),
                (''state'', VStr st), (''zip'', VStr (py_strip rz))] \<and>
           18 \<le> age \<and> age \<le> 120 \<and> name_pat (py_strip rf) \<and> name_pat (py_strip rl) \<and>
           st \<in> set (map snd stateOfResidenceHM) \<and> zip_pat (py_strip rz) \<and>
           subseq [rf, rl, ra, rc, rs, rz] s0"
proof -
  from steps_loop_steps_Inr [OF assms]
  obtain rf rl ra rc rs rz vf vl va vc vs vz where
    b: "firstName_body rf = Accepted vf" "lastName_body rl = Accepted vl"
       "isValidAge_body ra = Accepted va" "countryOfCitizenship_body rc = Accepted vc"
       "stateOfResidence_body rs = Accepted vs" "zipCode_body rz = Accepted vz"
    and g: "age_check va = Inr ()" "citizen_check vc = Inr ()"
    and r: "r = [(''first'', vf), (''last'', vl), (''age'', va), (''citizen'', vc),
                (''state'', vs), (''zip'', vz)]"
    and sub: "subseq [rf, rl, ra, rc, rs, rz] s0"
    by blast
  from b(1) have vf: "vf = VStr (py_strip rf)" "name_pat (py_strip rf)"
    by (auto dest: firstName_body_Accepted)
  from b(2) have vl: "vl = VStr (py_strip rl)" "name_pat (py_strip rl)"
    by (auto dest: lastName_body_Accepted)
  from b(3) obtain age where va: "va = VInt age" "0 \<le> age" "age \<le> 120"
    by (auto dest: isValidAge_body_Accepted)
  from g(1) va have age: "18 \<le> age" by (simp split: if_splits)
  from b(4) obtain yn where "vc = VBool yn" by (auto dest: countryOfCitizenship_body_Accepted)
  with g(2) have vc: "vc = VBool True" by (simp add: citizen_check_def split: if_splits)
  from b(5) obtain st where vs: "vs = VStr st" "st \<in> set (map snd stateOfResidenceHM)"
    by (auto dest: stateOfResidence_body_Accepted)
  from b(6) have vz: "vz = VStr (py_strip rz)" "zip_pat (py_strip rz)"
    by (auto dest: zipCode_body_Accepted)
  from b g r sub vf vl va age vc vs vz show ?thesis by blast
qed

section \<open>How a run can end\<close>

lemma msgs_distinct:
  "default_msg \<noteq> initial_msg" "guard_msg \<noteq> initial_msg" "guard_msg \<noteq> default_msg"
  by (simp_all add: default_msg_def initial_msg_def guard_msg_def)

lemma summary_six:
  "summary [(''first'', vf), (''last'', vl), (''age'', va), (''citizen'', vc),
            (''state'', vs), (''zip'', vz)] = Inr ()"
  by (simp add: summary_def)

lemma handler_simps:
  "handler (CancelRegistration m) = Inr (Cancelled m)"
  "handler EOFError = Inl EOFError"
  "handler ValueError = Inl ValueError"
  by (simp_all add: handler_def)

text \<open>Every way a run can end, once the first confirmation has been given.\<close>

lemma main_run_after_confirm:
  assumes "continue_or_raise True s = (Inr u, s0)"
  shows "fst (main_run s) \<in> {Inl EOFError, Inl ValueError, Inr (Cancelled default_msg),
                              Inr (Cancelled guard_msg)} \<or>
         (\<exists>r s'. steps_loop steps [] s0 = (Inr (), r, s') \<and>
                  main_run s = (Inr (Completed r), r, s'))"
proof (cases "steps_loop steps [] s0")
  case (fields x r s')
  show ?thesis
  proof (cases x)
    case (Inl e)
    with fields have "e \<in> {EOFError, ValueError, CancelRegistration default_msg,
                              CancelRegistration guard_msg}"
      by (auto dest: steps_loop_steps_Inl)
    moreover have "fst (main_run s) = handler e"
      using assms fields Inl by (simp add: main_run_def)
    ultimately show ?thesis by (auto simp: handler_simps)
  next
    case (Inr w)
    with fields have f: "steps_loop steps [] s0 = (Inr (), r, s')" by simp
    from steps_loop_steps_Inr [OF f] have "summary r = Inr ()"
      by (auto simp: summary_six)
    with assms f have "main_run s = (Inr (Completed r), r, s')"
      by (simp add: main_run_def)
    with f show ?thesis by blast
  qed
qed

lemma main_run_before_confirm:
  assumes "continue_or_raise True s = (Inl e, s0)"
  shows "main_run s = (Inl EOFError, [], []) \<or>
         (main_run s = (Inr (Cancelled initial_msg), [], s0) \<and> ask_continue s = (Inr False, s0))"
  using continue_or_raise_cases [OF assms] assms
  by (auto simp: main_run_def handler_simps)

section \<open>Terminal outcomes\<close>

text \<open>
  C10. On every run that ends \<open>Completed\<close>, the record holds an age of at least 18 and the
  citizenship value \<open>True\<close>.
\<close>

theorem completed_record_is_eligible:
  assumes "main s = Inr (Completed r)"
  shows "\<exists>age. map_of r ''age'' = Some (VInt age) \<and> 18 \<le> age \<and>
               map_of r ''citizen'' = Some (VBool True)"
proof (cases "continue_or_raise True s")
  case (Pair x s0)
  show ?thesis
  proof (cases x)
    case (Inl e)
    with Pair main_run_before_confirm [of s e s0] assms show ?thesis
      by (auto simp: main_def)
  next
    case (Inr u)
    with Pair have c: "continue_or_raise True s = (Inr u, s0)" by simp
    from main_run_after_confirm [OF c] assms
    obtain s' where "steps_loop steps [] s0 = (Inr (), r, s')"
      by (auto simp: main_def)
    from steps_loop_steps_shape [OF this] show ?thesis by auto
  qed
qed

theorem completed_record_is_eligible_witness:
  "main [''yes'', ''yes'', ''Ann'', ''yes'', ''Lee'', ''yes'', ''25'', ''yes'', ''yes'',
         ''yes'', ''MD'', ''yes'', ''21201'']
     = Inr (Completed [(''first'', VStr ''Ann''), (''last'', VStr ''Lee''), (''age'', VInt 25),
                       (''citizen'', VBool True), (''state'', VStr ''MD''),
                       (''zip'', VStr ''21201'')]) \<and>
   (\<exists>age. map_of [(''first'', VStr ''Ann''), (''last'', VStr ''Lee''), (''age'', VInt 25),
                   (''citizen'', VBool True), (''state'', VStr ''MD''),
                   (''zip'', VStr ''21201'')] ''age'' = Some (VInt age) \<and> 18 \<le> age \<and>
          map_of [(''first'', VStr ''Ann''), (''last'', VStr ''Lee''), (''age'', VInt 25),
                   (''citizen'', VBool True), (''state'', VStr ''MD''),
                   (''zip'', VStr ''21201'')] ''citizen'' = Some (VBool True))"
proof -
  have h: "main [''yes'', ''yes'', ''Ann'', ''yes'', ''Lee'', ''yes'', ''25'', ''yes'', ''yes'',
         ''yes'', ''MD'', ''yes'', ''21201'']
     = Inr (Completed [(''first'', VStr ''Ann''), (''last'', VStr ''Lee''), (''age'', VInt 25),
                       (''citizen'', VBool True), (''state'', VStr ''MD''),
                       (''zip'', VStr ''21201'')])"
    by (simp add: run_defs)
  from h completed_record_is_eligible [OF h] show ?thesis by blast
qed

text \<open>
  C6. When the first continuation question is answered \<open>no\<close>, the run ends at once with
  \<open>Cancelled\<close> and the message \<open>Thanks for trying the Voter Registration Application.
  Goodbye!\<close>: the \<open>results\<close> dictionary is empty and every line after the answer is left
  unread, so no field is prompted for. A run that got past the first question never ends
  with that message.
\<close>

theorem initial_decline:
  assumes "ask_continue s = (Inr False, rest)"
  shows "main_run s =
           (Inr (Cancelled ''Thanks for trying the Voter Registration Application. Goodbye!''),
            [], rest) \<and>
         (\<forall>t t0. continue_or_raise True t = (Inr (), t0)
            \<longrightarrow> main t \<noteq>
                Inr (Cancelled ''Thanks for trying the Voter Registration Application. Goodbye!''))"
proof -
  have i: "initial_msg = ''Thanks for trying the Voter Registration Application. Goodbye!''"
    by (simp add: initial_msg_def)
  from assms have "continue_or_raise True s = (Inl (CancelRegistration initial_msg), rest)"
    by (simp add: continue_or_raise_def)
  then have a: "main_run s = (Inr (Cancelled initial_msg), [], rest)"
    by (simp add: main_run_def handler_simps)
  have b: "main t \<noteq> Inr (Cancelled initial_msg)"
    if "continue_or_raise True t = (Inr (), t0)" for t t0
    using main_run_after_confirm [OF that]
    by (auto simp: main_def msgs_distinct)
  from a b show ?thesis unfolding i by blast
qed

theorem initial_decline_witness:
  "ask_continue [''no'', ''Ann'', ''Lee''] = (Inr False, [''Ann'', ''Lee'']) \<and>
   main_run [''no'', ''Ann'', ''Lee'']
     = (Inr (Cancelled ''Thanks for trying the Voter Registration Application. Goodbye!''),
        [], [''Ann'', ''Lee'']) \<and>
   continue_or_raise True [''yes'', ''no''] = (Inr (), [''no'']) \<and>
   main [''yes'', ''no'']
     \<noteq> Inr (Cancelled ''Thanks for trying the Voter Registration Application. Goodbye!'') \<and>
   main [''yes'', ''no''] = Inr (Cancelled ''Registration canceled. Goodbye!'')"
proof -
  have h: "ask_continue [''no'', ''Ann'', ''Lee''] = (Inr False, [''Ann'', ''Lee''])"
    by (simp add: run_defs)
  have k: "continue_or_raise True [''yes'', ''no''] = (Inr (), [''no''])"
    by (simp add: run_defs)
  have m: "main [''yes'', ''no''] = Inr (Cancelled ''Registration canceled. Goodbye!'')"
    by (simp add: run_defs)
  from initial_decline [OF h] h k m show ?thesis by blast
qed

section \<open>Exit tokens and the structure of the step loop\<close>

lemma of_char_less_256: "(of_char (c::char) :: nat) < 256"
  by simp

lemma ascii_letter_lower_char: "ascii_letter (lower_char c) \<Longrightarrow> ascii_letter c"
  using of_char_less_256 [of c]
  by (auto simp: ascii_letter_def lower_char_def Let_def split: if_splits)





lemma py_lower_letters:
  "list_all ascii_letter (py_lower t) \<Longrightarrow> list_all ascii_letter t"
  by (induction t) (auto simp: py_lower_def dest: ascii_letter_lower_char)

lemma exit_word_letters:
  "list_all ascii_letter ''exit''" "list_all ascii_letter ''quit''"
  by (simp_all add: ascii_letter_def)



lemma steps_loop_append:
  "steps_loop (pre @ post) r s =
     (case steps_loop pre r s of
        (Inl e, r', s') \<Rightarrow> (Inl e, r', s')
      | (Inr u, r', s') \<Rightarrow> steps_loop post r' s')"
proof (induction pre arbitrary: r s)
  case Nil
  show ?case by simp
next
  case (Cons st pre)
  obtain key getter chk where st: "st = (key, getter, chk)" by (cases st)
  show ?case unfolding st
    by (simp add: Cons.IH split: prod.splits sum.splits)
qed

lemma steps_loop_keys:
  "steps_loop sts r s = (x, r', s') \<Longrightarrow> fst ` set r' \<subseteq> fst ` set r \<union> fst ` set sts"
proof (induction sts arbitrary: r s)
  case Nil
  then show ?case by simp
next
  case (Cons st sts)
  obtain key getter chk where st: "st = (key, getter, chk)" by (cases st)
  from Cons.prems [unfolded st] consider
    (stop) "r' = r"
    | (more) v s2 where "steps_loop sts (AList.update key v r) s2 = (x, r', s')"
    by (auto split: prod.splits sum.splits)
  then show ?case
  proof cases
    case stop
    then show ?thesis by blast
  next
    case more
    from Cons.IH [OF this]
    have "fst ` set r' \<subseteq> insert key (fst ` set r) \<union> fst ` set sts"
      by (simp add: dom_update)
    then show ?thesis unfolding st by auto
  qed
qed

section \<open>Cancelling at a field prompt\<close>


lemma steps_keys_distinct: "distinct (map fst steps)"
  by (simp add: steps_def)

lemma steps_guards:
  assumes "(key, getter, Some guard) \<in> set steps"
  shows "(key = ''age'' \<and> getter = isValidAge \<and> guard = age_check) \<or>
         (key = ''citizen'' \<and> getter = countryOfCitizenship \<and> guard = citizen_check)"
  using assms by (auto simp: steps_def)

lemma age_check_Cancel: "age_check v = Inl (CancelRegistration m) \<Longrightarrow> m = guard_msg"
  by (cases v) (auto split: if_splits)

lemma citizen_check_Cancel: "citizen_check v = Inl (CancelRegistration m) \<Longrightarrow> m = guard_msg"
  by (auto simp: citizen_check_def split: if_splits)

text \<open>A run that has passed the first question and the steps \<open>pre\<close> goes on with the rest.\<close>

lemma main_run_split:
  assumes "steps = pre @ post"
    and "continue_or_raise True s = (Inr (), s0)"
    and "steps_loop pre [] s0 = (Inr (), r, s1)"
    and "steps_loop post r s1 = (Inl e, r', s')"
  shows "main_run s = (handler e, r', s')"
proof -
  from assms(3,4) have "steps_loop (pre @ post) [] s0 = (Inl e, r', s')"
    by (simp add: steps_loop_append)
  then have "steps_loop steps [] s0 = (Inl e, r', s')"
    by (simp only: assms(1) [symmetric])
  with assms(2) show ?thesis by (simp add: main_run_def)
qed



section \<open>Guards\<close>

text \<open>
  C5. The two steps with a guard are \<open>age\<close> and \<open>citizen\<close>. Whenever the getter of such a
  step returns a value and the guard raises \<open>CancelRegistration\<close> on it, the run ends
  \<open>Cancelled\<close> with the guard's message, which is not the default message, and the
  \<open>results\<close> dictionary has no entry under the step's key.
\<close>

theorem guard_abort_stores_nothing:
  assumes "steps = pre @ (key, getter, Some guard) # more"
    and "continue_or_raise True s = (Inr (), s0)"
    and "steps_loop pre [] s0 = (Inr (), r, s1)"
    and "continue_or_raise False s1 = (Inr (), s2)"
    and "getter s2 = (Inr (Some v), s3)"
    and "guard v = Inl (CancelRegistration reason)"
  shows "main_run s = (Inr (Cancelled reason), r, s3) \<and> map_of r key = None \<and>
         reason \<noteq> default_msg \<and> key \<in> {''age'', ''citizen''}"
proof -
  from assms(5) have "require getter s2 = (Inr v, s3)" by (simp add: require_def)
  with assms(4,6)
  have "steps_loop ((key, getter, Some guard) # more) r s1
          = (Inl (CancelRegistration reason), r, s3)"
    by simp
  from main_run_split [OF assms(1,2,3) this]
  have a: "main_run s = (Inr (Cancelled reason), r, s3)" by (simp add: handler_simps)
  from assms(1) have mem: "(key, getter, Some guard) \<in> set steps"
    by (metis in_set_conv_decomp)
  from steps_guards [OF mem] assms(6) have b: "reason = guard_msg" "key \<in> {''age'', ''citizen''}"
    by (auto dest: age_check_Cancel citizen_check_Cancel)
  have "distinct (map fst (pre @ (key, getter, Some guard) # more))"
    using steps_keys_distinct by (simp only: assms(1) [symmetric])
  then have "key \<notin> fst ` set pre" by auto
  moreover from steps_loop_keys [OF assms(3)] have "fst ` set r \<subseteq> fst ` set pre" by simp
  ultimately have "key \<notin> fst ` set r" by blast
  then have c: "map_of r key = None" by (simp add: map_of_eq_None_iff)
  from a b c show ?thesis by (simp add: msgs_distinct)
qed

theorem guard_abort_stores_nothing_witness:
  "steps = take 2 steps @ (''age'', isValidAge, Some age_check) # drop 3 steps \<and>
   continue_or_raise True [''y'', ''y'', ''Ann'', ''y'', ''Lee'', ''y'', ''16'', ''y'']
     = (Inr (), [''y'', ''Ann'', ''y'', ''Lee'', ''y'', ''16'', ''y'']) \<and>
   steps_loop (take 2 steps) [] [''y'', ''Ann'', ''y'', ''Lee'', ''y'', ''16'', ''y'']
     = (Inr (), [(''first'', VStr ''Ann''), (''last'', VStr ''Lee'')], [''y'', ''16'', ''y'']) \<and>
   continue_or_raise False [''y'', ''16'', ''y''] = (Inr (), [''16'', ''y'']) \<and>
   isValidAge [''16'', ''y''] = (Inr (Some (VInt 16)), [''y'']) \<and>
   age_check (VInt 16) = Inl (CancelRegistration guard_msg) \<and>
   main_run [''y'', ''y'', ''Ann'', ''y'', ''Lee'', ''y'', ''16'', ''y'']
     = (Inr (Cancelled ''Thanks for trying the Voter Registration Application.''),
        [(''first'', VStr ''Ann''), (''last'', VStr ''Lee'')], [''y'']) \<and>
   map_of [(''first'', VStr ''Ann''), (''last'', VStr ''Lee'')] ''age'' = None"
proof -
  have a: "steps = take 2 steps @ (''age'', isValidAge, Some age_check) # drop 3 steps"
    by (simp add: steps_def)
  have c: "continue_or_raise True [''y'', ''y'', ''Ann'', ''y'', ''Lee'', ''y'', ''16'', ''y'']
     = (Inr (), [''y'', ''Ann'', ''y'', ''Lee'', ''y'', ''16'', ''y''])"
    by (simp add: run_defs)
  have p: "steps_loop (take 2 steps) [] [''y'', ''Ann'', ''y'', ''Lee'', ''y'', ''16'', ''y'']
     = (Inr (), [(''first'', VStr ''Ann''), (''last'', VStr ''Lee'')], [''y'', ''16'', ''y''])"
    by (simp add: run_defs)
  have q: "continue_or_raise False [''y'', ''16'', ''y''] = (Inr (), [''16'', ''y''])"
    by (simp add: run_defs)
  have g: "isValidAge [''16'', ''y''] = (Inr (Some (VInt 16)), [''y''])"
    by (simp add: run_defs)
  have k: "age_check (VInt 16) = Inl (CancelRegistration guard_msg)"
    by simp
  from guard_abort_stores_nothing [OF a c p q g k] a c p q g k
  show ?thesis by (simp add: guard_msg_def)
qed

section \<open>Runs one after the other\<close>

lemma getter_loop_more_input:
  "getter_loop body s = (x, s') \<Longrightarrow> x \<noteq> Inl EOFError \<Longrightarrow>
     getter_loop body (s @ t) = (x, s' @ t)"
proof (induction s)
  case Nil
  then show ?case by simp
next
  case (Cons l ls)
  then show ?case by (cases "body l") auto
qed

lemma ask_continue_more_input:
  "ask_continue s = (x, s') \<Longrightarrow> x \<noteq> Inl EOFError \<Longrightarrow> ask_continue (s @ t) = (x, s' @ t)"
proof (induction s)
  case Nil
  then show ?case by simp
next
  case (Cons l ls)
  then show ?case by (cases "yes_no (py_strip l)") auto
qed

lemma continue_or_raise_more_input:
  assumes "continue_or_raise initial s = (x, s')" "x \<noteq> Inl EOFError"
  shows "continue_or_raise initial (s @ t) = (x, s' @ t)"
proof (cases "ask_continue s")
  case (Pair y sa)
  with assms have "y \<noteq> Inl EOFError"
    by (auto simp: continue_or_raise_def)
  from ask_continue_more_input [OF Pair this] Pair assms(1) show ?thesis
    by (auto simp: continue_or_raise_def split: sum.splits if_splits)
qed

lemma require_more_input:
  assumes "require (getter_loop body) s = (x, s')" "x \<noteq> Inl EOFError"
  shows "require (getter_loop body) (s @ t) = (x, s' @ t)"
proof (cases "getter_loop body s")
  case (Pair y sa)
  with assms have "y \<noteq> Inl EOFError"
    by (auto simp: require_def)
  from getter_loop_more_input [OF Pair this] Pair assms(1) show ?thesis
    by (auto simp: require_def split: sum.splits option.splits)
qed

lemma steps_loop_more_input:
  assumes "\<forall>st \<in> set sts. \<exists>body. fst (snd st) = getter_loop body"
    and "steps_loop sts r s = (x, r', s')" and "x \<noteq> Inl EOFError"
  shows "steps_loop sts r (s @ t) = (x, r', s' @ t)"
  using assms
proof (induction sts arbitrary: r s)
  case Nil
  then show ?case by simp
next
  case (Cons st sts)
  obtain key getter chk where st: "st = (key, getter, chk)" by (cases st)
  with Cons.prems(1) obtain body where g: "getter = getter_loop body" by auto
  from Cons.prems(1) have all: "\<forall>st \<in> set sts. \<exists>body. fst (snd st) = getter_loop body"
    by simp
  note run = Cons.prems(2) [unfolded st g]
  obtain y sa where c: "continue_or_raise False s = (y, sa)" by (cases "continue_or_raise False s")
  show ?case
  proof (cases y)
    case (Inl e)
    with c run Cons.prems(3) have "y \<noteq> Inl EOFError" "x = y" "r' = r" "s' = sa" by auto
    with continue_or_raise_more_input [OF c this(1), of t] Inl show ?thesis
      by (simp add: st g)
  next
    case (Inr u)
    with c have c': "continue_or_raise False (s @ t) = (Inr u, sa @ t)"
      using continue_or_raise_more_input [OF c, of t] by simp
    obtain z sb where q: "require (getter_loop body) sa = (z, sb)"
      by (cases "require (getter_loop body) sa")
    show ?thesis
    proof (cases z)
      case (Inl e)
      with c \<open>y = Inr u\<close> q run Cons.prems(3)
      have "z \<noteq> Inl EOFError" "x = Inl e" "r' = r" "s' = sb" by auto
      with require_more_input [OF q this(1), of t] Inl c' show ?thesis
        by (simp add: st g)
    next
      case (Inr v)
      with q have q': "require (getter_loop body) (sa @ t) = (Inr v, sb @ t)"
        using require_more_input [OF q, of t] by simp
      show ?thesis
      proof (cases "case chk of None \<Rightarrow> Inr () | Some chk \<Rightarrow> chk v")
        case (Inl e)
        with c \<open>y = Inr u\<close> q \<open>z = Inr v\<close> run
        have "x = Inl e" "r' = r" "s' = sb" by auto
        with Inl c' q' show ?thesis by (simp add: st g)
      next
        case (Inr w)
        with c \<open>y = Inr u\<close> q \<open>z = Inr v\<close> run
        have "steps_loop sts (AList.update key v r) sb = (x, r', s')" by simp
        from Cons.IH [OF all this Cons.prems(3)] Inr c' q' show ?thesis by (simp add: st g)
      qed
    qed
  qed
qed

lemma steps_all_getter_loops: "\<forall>st \<in> set steps. \<exists>body. fst (snd st) = getter_loop body"
  by (auto simp: steps_def firstName_def lastName_def isValidAge_def countryOfCitizenship_def
        stateOfResidence_def zipCode_def)

lemma handler_EOFError: "handler e = Inl EOFError \<longleftrightarrow> e = EOFError"
  by (cases e) (simp_all add: handler_def)

lemma main_run_more_input:
  assumes "main_run s = (out, r, s')" "out \<noteq> Inl EOFError"
  shows "main_run (s @ t) = (out, r, s' @ t)"
proof -
  obtain y s0 where c: "continue_or_raise True s = (y, s0)"
    by (cases "continue_or_raise True s")
  show ?thesis
  proof (cases y)
    case (Inl e)
    with c assms have e: "out = handler e" "r = []" "s' = s0" "e \<noteq> EOFError"
      by (auto simp: main_run_def handler_EOFError)
    with Inl have "y \<noteq> Inl EOFError" by simp
    from continue_or_raise_more_input [OF c this, of t] Inl e show ?thesis
      by (simp add: main_run_def)
  next
    case (Inr u)
    with c have c': "continue_or_raise True (s @ t) = (Inr u, s0 @ t)"
      using continue_or_raise_more_input [OF c, of t] by simp
    obtain x r1 s1 where l: "steps_loop steps [] s0 = (x, r1, s1)"
      by (cases "steps_loop steps [] s0")
    have "x \<noteq> Inl EOFError"
    proof
      assume "x = Inl EOFError"
      with c Inr l have "main_run s = (Inl EOFError, r1, s1)"
        by (simp add: main_run_def handler_simps)
      with assms show False by simp
    qed
    from steps_loop_more_input [OF steps_all_getter_loops l this, of t]
    have l': "steps_loop steps [] (s0 @ t) = (x, r1, s1 @ t)" .
    from c Inr l assms(1) c' l' show ?thesis
      by (auto simp: main_run_def split: sum.splits)
  qed
qed

text \<open>
  C8. \<open>main\<close> is a function of the script it reads: it starts from an empty \<open>results\<close>
  dictionary and the fixed list \<open>steps\<close>, and nothing else enters a run. Run twice in a
  row on one standard input that holds the same script \<open>s\<close> twice (\<open>s\<close> being a script
  that a run reads to its last line), the first run ends as it does on \<open>s\<close> alone and
  leaves the second copy unread, and the second run, started on what the first left,
  ends with the same outcome and the same \<open>results\<close>.
\<close>

theorem second_run_repeats_first:
  assumes "main_run s = (out, r, [])" and "out \<noteq> Inl EOFError"
  shows "main_run (s @ s) = (out, r, s) \<and>
         main_run (snd (snd (main_run (s @ s)))) = (out, r, []) \<and>
         main (snd (snd (main_run (s @ s)))) = main s"
proof -
  from main_run_more_input [OF assms, of s] have a: "main_run (s @ s) = (out, r, s)" by simp
  with assms(1) show ?thesis by (simp add: main_def)
qed

theorem second_run_repeats_first_witness:
  "main_run [''yes'', ''yes'', ''Ann'', ''yes'', ''Lee'', ''yes'', ''16'']
     = (Inr (Cancelled guard_msg), [(''first'', VStr ''Ann''), (''last'', VStr ''Lee'')], []) \<and>
   main_run ([''yes'', ''yes'', ''Ann'', ''yes'', ''Lee'', ''yes'', ''16'']
             @ [''yes'', ''yes'', ''Ann'', ''yes'', ''Lee'', ''yes'', ''16''])
     = (Inr (Cancelled guard_msg), [(''first'', VStr ''Ann''), (''last'', VStr ''Lee'')],
        [''yes'', ''yes'', ''Ann'', ''yes'', ''Lee'', ''yes'', ''16''])"
proof -
  have h: "main_run [''yes'', ''yes'', ''Ann'', ''yes'', ''Lee'', ''yes'', ''16'']
     = (Inr (Cancelled guard_msg), [(''first'', VStr ''Ann''), (''last'', VStr ''Lee'')], [])"
    by (simp add: run_defs)
  have k: "Inr (Cancelled guard_msg) \<noteq> (Inl EOFError :: exn + outcome)" by simp
  from second_run_repeats_first [OF h k] h show ?thesis by blast
qed

section \<open>ZIP codes\<close>

lemma ascii_digit_not_space: "ascii_digit c \<Longrightarrow> \<not> py_isspace c"
  by (auto simp: ascii_digit_def py_isspace_def Let_def)

lemma ascii_digit_not_letter: "ascii_digit c \<Longrightarrow> \<not> ascii_letter c"
  by (auto simp: ascii_digit_def ascii_letter_def Let_def)

lemma hyphen_not_space: "\<not> py_isspace CHR ''-''" "\<not> ascii_letter CHR ''-''"
  by (simp_all add: py_isspace_def ascii_letter_def)

lemma zip_pat_length: "zip_pat s \<Longrightarrow> length s = 5 \<or> length s = 10"
  by (cases "drop 5 s") (auto simp: zip_pat_def dest: arg_cong [where f = length])

lemma exit_requested_letters:
  assumes "exit_requested t"
  shows "length (py_strip t) = 4 \<and> list_all ascii_letter (py_strip t)"
proof -
  from assms have e: "py_lower (py_strip t) \<in> {''exit'', ''quit''}"
    by (simp add: exit_requested_def)
  then have "list_all ascii_letter (py_lower (py_strip t))" using exit_word_letters by auto
  then have "list_all ascii_letter (py_strip t)" by (rule py_lower_letters)
  moreover from e have "length (py_lower (py_strip t)) = 4" by auto
  then have "length (py_strip t) = 4" by (simp add: py_lower_def)
  ultimately show ?thesis by simp
qed

lemma zipCode_body_Retry:
  assumes "py_strip t = t" and "length t \<noteq> 5" "length t \<noteq> 10"
    and "length t \<noteq> 4 \<or> \<not> list_all ascii_letter t"
  shows "zipCode_body t = Retry"
proof -
  from assms(1,4) have "\<not> exit_requested t" by (auto dest: exit_requested_letters)
  moreover from assms(2,3) have "\<not> zip_pat t" by (auto dest: zip_pat_length)
  ultimately show ?thesis by (simp add: zipCode_body_def assms(1) exit_requested_strip)
qed

lemma valid_zip_facts:
  assumes "length a = 5" "list_all ascii_digit a" "length b = 4" "list_all ascii_digit b"
    and "z = a \<or> z = a @ ''-'' @ b"
  shows "zip_pat z" and "length z = 5 \<or> length z = 10"
    and "\<forall>c \<in> set z. \<not> py_isspace c \<and> \<not> ascii_letter c"
proof -
  from assms(5) show "zip_pat z"
  proof
    assume "z = a"
    with assms(1,2) show ?thesis by (simp add: zip_pat_def)
  next
    assume "z = a @ ''-'' @ b"
    with assms(1-4) show ?thesis by (simp add: zip_pat_def)
  qed
  from assms(1,3,5) show "length z = 5 \<or> length z = 10" by auto
  from assms(2,4,5) show "\<forall>c \<in> set z. \<not> py_isspace c \<and> \<not> ascii_letter c"
    using ascii_digit_not_space ascii_digit_not_letter
    by (auto simp: list_all_iff hyphen_not_space)
qed

lemma py_strip_no_space:
  assumes "t \<noteq> []" "\<forall>c \<in> set t. \<not> py_isspace c"
  shows "py_strip t = t"
  using assms by (intro py_strip_id) auto

lemma zipCode_body_valid:
  assumes "zip_pat z" "z \<noteq> []" "\<forall>c \<in> set z. \<not> py_isspace c \<and> \<not> ascii_letter c"
  shows "zipCode_body z = Accepted (VStr z)"
proof -
  from assms(2,3) have s: "py_strip z = z" by (intro py_strip_no_space) auto
  have "\<not> exit_requested z"
  proof
    assume "exit_requested z"
    from exit_requested_letters [OF this] s have "list_all ascii_letter z" by simp
    with assms(2,3) show False by (cases z) auto
  qed
  with s assms(1) show ?thesis by (simp add: zipCode_body_def exit_requested_strip)
qed

lemma zip_remove_Retry:
  assumes "length z = 5 \<or> length z = 10"
    and "\<forall>c \<in> set z. \<not> py_isspace c \<and> \<not> ascii_letter c" and "i < length z"
  shows "zipCode_body (take i z @ drop (Suc i) z) = Retry"
proof -
  let ?t = "take i z @ drop (Suc i) z"
  from assms(1,3) have len: "length ?t = 4 \<or> length ?t = 9" by auto
  have sub: "set ?t \<subseteq> set z"
    using set_take_subset [of i z] set_drop_subset [of "Suc i" z] by auto
  from len have ne: "?t \<noteq> []" by auto
  from sub assms(2) have ns: "\<forall>c \<in> set ?t. \<not> py_isspace c" by blast
  from ne ns have s: "py_strip ?t = ?t" by (rule py_strip_no_space)
  from ne sub assms(2) have "\<not> list_all ascii_letter ?t"
    by (metis hd_in_set list_all_iff subsetD)
  with s len show ?thesis by (intro zipCode_body_Retry) auto
qed

lemma zip_insert_Retry:
  assumes "length z = 5 \<or> length z = 10"
    and "\<forall>c \<in> set z. \<not> py_isspace c \<and> \<not> ascii_letter c" and "i \<le> length z"
    and "\<not> py_isspace c \<or> (0 < i \<and> i < length z)"
  shows "zipCode_body (take i z @ c # drop i z) = Retry"
proof -
  let ?t = "take i z @ c # drop i z"
  from assms(1,3) have len: "length ?t = 6 \<or> length ?t = 11" by auto
  from assms(1) have z: "z \<noteq> []" by auto
  have h: "\<not> py_isspace (hd ?t)"
  proof (cases "i = 0")
    case True
    with assms(4) show ?thesis by simp
  next
    case False
    with z have "hd ?t = hd z" by (cases z) (auto simp: take_Suc_conv_app_nth hd_append)
    with z assms(2) show ?thesis by simp
  qed
  have l: "\<not> py_isspace (last ?t)"
  proof (cases "i = length z")
    case True
    with assms(4) show ?thesis by simp
  next
    case False
    with assms(3) have "drop i z \<noteq> []" by simp
    then have "last ?t = last z" by (simp add: last_drop)
    with z assms(2) show ?thesis by simp
  qed
  from h l have "py_strip ?t = ?t" by (intro py_strip_id) auto
  with len show ?thesis by (intro zipCode_body_Retry) auto
qed

text \<open>
  C4, as stated, fails: a space added in front of the first digit of a valid ZIP code is
  trimmed away, and the trimmed code is accepted.
\<close>

theorem zip_leading_space_accepted:
  "zipCode_body ''21201'' = Accepted (VStr ''21201'') \<and>
   zipCode_body (CHR '' '' # ''21201'') = Accepted (VStr ''21201'')"
  by (simp add: run_defs)

text \<open>
  C4, amended. A string of exactly five digits, or of five digits, a hyphen and four
  digits, is accepted as it is. Removing any one character from such a string gives
  \<open>Retry\<close>, and so does adding one character anywhere in it, unless the added character
  is white space put at the very start or the very end (where it is trimmed away).
\<close>

theorem zip_validation:
  assumes "length a = 5" "list_all ascii_digit a" "length b = 4" "list_all ascii_digit b"
    and "z = a \<or> z = a @ ''-'' @ b"
  shows "zipCode_body z = Accepted (VStr z) \<and>
         (\<forall>i < length z. zipCode_body (take i z @ drop (Suc i) z) = Retry) \<and>
         (\<forall>i \<le> length z. \<forall>c. \<not> py_isspace c \<or> (0 < i \<and> i < length z)
             \<longrightarrow> zipCode_body (take i z @ c # drop i z) = Retry)"
proof -
  note f = valid_zip_facts [OF assms]
  from f(2) have "z \<noteq> []" by auto
  with f(1,3) have "zipCode_body z = Accepted (VStr z)" by (intro zipCode_body_valid)
  moreover have "\<forall>i < length z. zipCode_body (take i z @ drop (Suc i) z) = Retry"
    using zip_remove_Retry [OF f(2,3)] by blast
  moreover have "\<forall>i \<le> length z. \<forall>c. \<not> py_isspace c \<or> (0 < i \<and> i < length z)
             \<longrightarrow> zipCode_body (take i z @ c # drop i z) = Retry"
    using zip_insert_Retry [OF f(2,3)] by blast
  ultimately show ?thesis by blast
qed

theorem zip_validation_witness:
  "length ''21201'' = 5 \<and> list_all ascii_digit ''21201'' \<and>
   length ''1234'' = 4 \<and> list_all ascii_digit ''1234'' \<and>
   zipCode_body ''21201-1234'' = Accepted (VStr ''21201-1234'') \<and>
   zipCode_body ''21201-234'' = Retry \<and>
   zipCode_body ''2201-1234'' = Retry \<and>
   zipCode_body ''212019-1234'' = Retry \<and>
   zipCode_body ''21201-12 34'' = Retry"
proof -
  have h: "length ''21201'' = 5" "list_all ascii_digit ''21201''"
    "length ''1234'' = 4" "list_all ascii_digit ''1234''"
    "''21201-1234'' = ''21201'' \<or> ''21201-1234'' = ''21201'' @ ''-'' @ ''1234''"
    by (simp_all add: ascii_digit_def)
  note t = zip_validation [OF h]
  note acc = t [THEN conjunct1]
  note rem = t [THEN conjunct2, THEN conjunct1, rule_format]
  note ins = t [THEN conjunct2, THEN conjunct2, rule_format]
  have "zipCode_body ''21201-1234'' = Accepted (VStr ''21201-1234'')" by (rule acc)
  moreover have "zipCode_body ''21201-234'' = Retry" using rem [of 6] by simp
  moreover have "zipCode_body ''2201-1234'' = Retry" using rem [of 1] by simp
  moreover have "zipCode_body ''212019-1234'' = Retry"
    using ins [of 5 "CHR ''9''"] by (simp add: py_isspace_def)
  moreover have "zipCode_body ''21201-12 34'' = Retry"
    using ins [of 8 "CHR '' ''"] by simp
  ultimately show ?thesis using h by simp
qed

section \<open>Ages\<close>

declare digits_of_nat.simps [simp del]

lemma digit_char_facts:
  assumes "d < 10"
  shows "ascii_digit (digit_char d)" "digit_val (digit_char d) = int d"
  using assms by (simp_all add: ascii_digit_def digit_val_def digit_char_def)

lemma digits_val_snoc: "digits_val (s @ [c]) = 10 * digits_val s + digit_val c"
  by (simp add: digits_val_def)

lemma digits_of_nat_facts:
  "digits_of_nat n \<noteq> [] \<and> list_all ascii_digit (digits_of_nat n) \<and>
   digits_val (digits_of_nat n) = int n"
proof (induction n rule: digits_of_nat.induct)
  case (1 n)
  show ?case
  proof (cases "n < 10")
    case True
    then show ?thesis
      by (simp add: digits_of_nat.simps [of n] digit_char_facts digits_val_def)
  next
    case False
    have m: "n mod 10 < 10" by simp
    have "int (10 * (n div 10) + n mod 10) = int n" by simp
    then have e: "10 * int (n div 10) + int (n mod 10) = int n"
      by (simp only: of_nat_add of_nat_mult of_nat_numeral)
    from 1 [OF False] False m e show ?thesis
      by (simp add: digits_of_nat.simps [of n] digit_char_facts digits_val_snoc)
  qed
qed

lemma digits_no_space:
  assumes "s \<noteq> []" "list_all ascii_digit s"
  shows "py_strip s = s" and "\<not> exit_requested s" and "py_isdigit s"
    and "py_int s = (if length s \<le> 4300 then Inr (digits_val s) else Inl ValueError)"
proof -
  from assms have ns: "\<forall>c \<in> set s. \<not> py_isspace c"
    using ascii_digit_not_space by (auto simp: list_all_iff)
  with assms(1) show s: "py_strip s = s" by (rule py_strip_no_space)
  show "\<not> exit_requested s"
  proof
    assume "exit_requested s"
    from exit_requested_letters [OF this] s have "list_all ascii_letter s" by simp
    with assms show False using ascii_digit_not_letter by (cases s) auto
  qed
  from assms show "py_isdigit s"
    by (auto simp: py_isdigit_def list_all_iff isdigit_char_def ascii_digit_def Let_def)
  from assms show "py_int s = (if length s \<le> 4300 then Inr (digits_val s) else Inl ValueError)"
    by (simp add: py_int_def)
qed

lemma isValidAge_body_digits:
  assumes "s \<noteq> []" "list_all ascii_digit s"
  shows "isValidAge_body s =
           (if 4300 < length s then Raised ValueError
            else if digits_val s \<le> 120 \<and> 0 \<le> digits_val s
              then Accepted (VInt (digits_val s))
            else Retry)"
  using digits_no_space [OF assms]
  by (auto simp: isValidAge_body_def exit_requested_strip)

lemma digits_of_nat_short: "n < 1000 \<Longrightarrow> length (digits_of_nat n) \<le> 3"
proof -
  have a: "length (digits_of_nat m) = 1" if "m < 10" for m
    using that by (simp add: digits_of_nat.simps [of m])
  have b: "length (digits_of_nat m) \<le> 2" if "m < 100" for m
    using that a [of "m div 10"] by (simp add: digits_of_nat.simps [of m])
  assume "n < 1000"
  then show ?thesis using b [of "n div 10"] by (simp add: digits_of_nat.simps [of n])
qed

lemma age_in_range_accepted:
  assumes "0 \<le> n" "n \<le> 120"
  shows "isValidAge_body (py_str n) = Accepted (VInt n)"
proof -
  from assms(1) have p: "py_str n = digits_of_nat (nat n)" by (simp add: py_str_def)
  from assms have "length (digits_of_nat (nat n)) \<le> 3" by (intro digits_of_nat_short) simp
  with p digits_of_nat_facts [of "nat n"] assms show ?thesis
    by (simp add: isValidAge_body_digits)
qed

lemma age_above_range_retry:
  assumes "120 < n" "length (py_str n) \<le> 4300"
  shows "isValidAge_body (py_str n) = Retry"
proof -
  from assms have "py_str n = digits_of_nat (nat n)" by (simp add: py_str_def)
  with digits_of_nat_facts [of "nat n"] assms show ?thesis
    by (simp add: isValidAge_body_digits)
qed

lemma age_long_literal_raises:
  assumes "list_all ascii_digit s" "4300 < length s"
  shows "isValidAge_body s = Raised ValueError"
proof -
  from assms(2) have "s \<noteq> []" by auto
  from isValidAge_body_digits [OF this assms(1)] assms(2) show ?thesis by simp
qed

lemma age_negative_retry:
  assumes "n < 0"
  shows "isValidAge_body (py_str n) = Retry"
proof -
  let ?s = "CHR ''-'' # digits_of_nat (nat (- n))"
  from assms have p: "py_str n = ?s" by (simp add: py_str_def)
  have d: "list_all ascii_digit (digits_of_nat (nat (- n)))"
    using digits_of_nat_facts by blast
  then have "\<forall>c \<in> set ?s. \<not> py_isspace c"
    using ascii_digit_not_space by (auto simp: list_all_iff hyphen_not_space)
  then have s: "py_strip ?s = ?s" by (intro py_strip_no_space) simp
  have e: "\<not> exit_requested ?s"
  proof
    assume "exit_requested ?s"
    from exit_requested_letters [OF this] s have "list_all ascii_letter ?s" by simp
    then show False by (simp add: hyphen_not_space)
  qed
  have "\<not> py_isdigit ?s" by (simp add: py_isdigit_def isdigit_char_def)
  with s e p show ?thesis by (simp add: isValidAge_body_def exit_requested_strip)
qed

lemma age_not_digits_retry:
  assumes "\<not> exit_requested raw" "\<not> py_isdigit (py_strip raw)"
  shows "isValidAge_body raw = Retry"
  using assms by (simp add: isValidAge_body_def exit_requested_strip)

text \<open>
  C3. The decimal string of every integer from 0 to 120 is accepted with its value, and
  the validator answers \<open>Retry\<close> to the decimal string of a negative integer, to that of an
  integer above 120 of at most 4300 digits, and to every text for which \<open>isdigit()\<close> fails
  (the lemmas above). The validator does raise, though, where \<open>isdigit()\<close> holds of a text
  that \<open>int\<close> does not read: on the superscript two (U+00B2) it lets \<open>ValueError\<close> escape,
  and \<open>main\<close>, which catches \<open>CancelRegistration\<close> only, ends with it.
\<close>

theorem age_superscript_digit_raises:
  "py_isdigit [CHR 0xB2] \<and> isValidAge_body [CHR 0xB2] = Raised ValueError \<and>
   main [''yes'', ''yes'', ''Ann'', ''yes'', ''Lee'', ''yes'', [CHR 0xB2]] = Inl ValueError"
  by (simp add: run_defs)

section \<open>Every run ends one way\<close>

lemma main_outcome_cases:
  "main s = Inl EOFError \<or> main s = Inl ValueError \<or>
   (\<exists>msg. main s = Inr (Cancelled msg)) \<or>
   (\<exists>rf rl ra rc rs rz age st.
      main s = Inr (Completed
        [(''first'', VStr (py_strip rf)), (''last'', VStr (py_strip rl)),
         (''age'', VInt age), (''citizen'', VBool True),
         (''state'', VStr st), (''zip'', VStr (py_strip rz))]) \<and>
      subseq [rf, rl, ra, rc, rs, rz] s \<and>
      firstName_body rf = Accepted (VStr (py_strip rf)) \<and>
      lastName_body rl = Accepted (VStr (py_strip rl)) \<and>
      isValidAge_body ra = Accepted (VInt age) \<and> age_check (VInt age) = Inr () \<and>
      countryOfCitizenship_body rc = Accepted (VBool True) \<and>
      citizen_check (VBool True) = Inr () \<and>
      stateOfResidence_body rs = Accepted (VStr st) \<and>
      zipCode_body rz = Accepted (VStr (py_strip rz)))"
proof (cases "continue_or_raise True s")
  case (Pair x s0)
  show ?thesis
  proof (cases x)
    case (Inl e)
    with Pair main_run_before_confirm [of s e s0] show ?thesis
      by (auto simp: main_def)
  next
    case (Inr u)
    with Pair have c: "continue_or_raise True s = (Inr u, s0)" by simp
    from main_run_after_confirm [OF c] show ?thesis
    proof
      assume "fst (main_run s) \<in> {Inl EOFError, Inl ValueError, Inr (Cancelled default_msg),
                              Inr (Cancelled guard_msg)}"
      then show ?thesis by (auto simp: main_def)
    next
      assume "\<exists>r s'. steps_loop steps [] s0 = (Inr (), r, s') \<and>
                  main_run s = (Inr (Completed r), r, s')"
      then obtain r s' where f: "steps_loop steps [] s0 = (Inr (), r, s')"
        and m: "main s = Inr (Completed r)"
        by (auto simp: main_def)
      from c obtain p0 l0 where s: "s = p0 @ l0 # s0"
        using continue_or_raise_Inr by blast
      from steps_loop_steps_shape [OF f]
      obtain rf rl ra rc rs rz age st where
        b: "firstName_body rf = Accepted (VStr (py_strip rf))"
           "lastName_body rl = Accepted (VStr (py_strip rl))"
           "isValidAge_body ra = Accepted (VInt age)" "age_check (VInt age) = Inr ()"
           "countryOfCitizenship_body rc = Accepted (VBool True)"
           "citizen_check (VBool True) = Inr ()"
           "stateOfResidence_body rs = Accepted (VStr st)"
           "zipCode_body rz = Accepted (VStr (py_strip rz))"
        and r: "r = [(''first'', VStr (py_strip rf)), (''last'', VStr (py_strip rl)),
                (''age'', VInt age), (''citizen'', VBool True),
                (''state'', VStr st), (''zip'', VStr (py_strip rz))]"
        and sub: "subseq [rf, rl, ra, rc, rs, rz] s0"
        by blast
      from sub have "subseq [rf, rl, ra, rc, rs, rz] (p0 @ l0 # s0)"
        by (intro list_emb_append2 list_emb_Cons)
      with s have "subseq [rf, rl, ra, rc, rs, rz] s" by simp
      with m r b show ?thesis by blast
    qed
  qed
qed

text \<open>\<open>EOFError\<close> leaves the step loop only when the whole input has been read.\<close>

lemma steps_loop_EOFError:
  assumes "\<forall>st \<in> set sts. \<exists>body. fst (snd st) = getter_loop body \<and>
              (\<forall>l. body l \<noteq> Raised EOFError)"
    and "\<forall>st \<in> set sts. \<forall>c v. snd (snd st) = Some c \<longrightarrow> c v \<noteq> Inl EOFError"
    and "steps_loop sts r s = (Inl EOFError, r', s')"
  shows "s' = []"
  using assms
proof (induction sts arbitrary: r s)
  case Nil
  then show ?case by simp
next
  case (Cons st sts)
  obtain key getter chk where st: "st = (key, getter, chk)" by (cases st)
  with Cons.prems(1) obtain body where g: "getter = getter_loop body"
    and nb: "\<forall>l. body l \<noteq> Raised EOFError" by auto
  from Cons.prems(2) st have nc: "\<forall>c v. chk = Some c \<longrightarrow> c v \<noteq> Inl EOFError" by simp
  from Cons.prems(1) have a1: "\<forall>st \<in> set sts. \<exists>body. fst (snd st) = getter_loop body \<and>
              (\<forall>l. body l \<noteq> Raised EOFError)" by simp
  from Cons.prems(2) have a2:
    "\<forall>st \<in> set sts. \<forall>c v. snd (snd st) = Some c \<longrightarrow> c v \<noteq> Inl EOFError" by simp
  note run = Cons.prems(3) [unfolded st g]
  obtain y sa where c: "continue_or_raise False s = (y, sa)"
    by (cases "continue_or_raise False s")
  show ?case
  proof (cases y)
    case (Inl e)
    with c run have "e = EOFError" "s' = sa" by auto
    with Inl c continue_or_raise_cases [of False s y sa] show ?thesis by auto
  next
    case (Inr u)
    note y = this
    obtain z sb where q: "require (getter_loop body) sa = (z, sb)"
      by (cases "require (getter_loop body) sa")
    show ?thesis
    proof (cases z)
      case (Inl e)
      with c y q run have e: "e = EOFError" "s' = sb" by auto
      from q Inl e have "getter_loop body sa = (Inl EOFError, sb)"
        by (auto simp: require_def split: prod.splits sum.splits option.splits)
      from getter_loop_Inl [OF this] nb e show ?thesis by auto
    next
      case (Inr v)
      note z = this
      show ?thesis
      proof (cases "case chk of None \<Rightarrow> Inr () | Some c \<Rightarrow> c v")
        case (Inl e)
        with c y q z run have "e = EOFError" by simp
        with Inl nc show ?thesis by (cases chk) auto
      next
        case (Inr w)
        with c y q z run
        have "steps_loop sts (AList.update key v r) sb = (Inl EOFError, r', s')" by simp
        from Cons.IH [OF a1 a2 this] show ?thesis .
      qed
    qed
  qed
qed

lemma steps_no_EOFError:
  "\<forall>st \<in> set steps. \<exists>body. fst (snd st) = getter_loop body \<and> (\<forall>l. body l \<noteq> Raised EOFError)"
  "\<forall>st \<in> set steps. \<forall>c v. snd (snd st) = Some c \<longrightarrow> c v \<noteq> Inl EOFError"
proof -
  have age: "\<forall>l. isValidAge_body l \<noteq> Raised EOFError"
    using isValidAge_body_Raised by fastforce
  show "\<forall>st \<in> set steps. \<exists>body. fst (snd st) = getter_loop body \<and>
          (\<forall>l. body l \<noteq> Raised EOFError)"
    using age
    by (auto simp: steps_def firstName_def lastName_def isValidAge_def countryOfCitizenship_def
        stateOfResidence_def zipCode_def firstName_body_Raised lastName_body_Raised
        countryOfCitizenship_body_Raised stateOfResidence_body_Raised zipCode_body_Raised)
  have "age_check v \<noteq> Inl EOFError" for v by (cases v) auto
  moreover have "citizen_check v \<noteq> Inl EOFError" for v by (simp add: citizen_check_def)
  ultimately show "\<forall>st \<in> set steps. \<forall>c v. snd (snd st) = Some c \<longrightarrow> c v \<noteq> Inl EOFError"
    by (auto simp: steps_def)
qed

lemma main_run_EOFError:
  assumes "main_run s = (Inl EOFError, r, s')"
  shows "s' = []"
proof (cases "continue_or_raise True s")
  case (Pair y s0)
  show ?thesis
  proof (cases y)
    case (Inl e)
    with Pair main_run_before_confirm [of s e s0] assms show ?thesis by auto
  next
    case (Inr u)
    obtain x r1 s1 where l: "steps_loop steps [] s0 = (x, r1, s1)"
      by (cases "steps_loop steps [] s0")
    show ?thesis
    proof (cases x)
      case (Inl e)
      with Pair Inr l assms have "handler e = Inl EOFError" "s' = s1"
        by (auto simp: main_run_def)
      with Inl l have "steps_loop steps [] s0 = (Inl EOFError, r1, s')"
        by (simp add: handler_EOFError)
      from steps_loop_EOFError [OF steps_no_EOFError this] show ?thesis .
    next
      case (Inr w)
      with Pair \<open>y = Inr u\<close> l assms show ?thesis
        by (auto simp: main_run_def handler_EOFError summary_def split: sum.splits if_splits)
    qed
  qed
qed

text \<open>
  C7, as stated, fails: a run whose input ends before the flow does leaves \<open>main\<close> with
  \<open>EOFError\<close> and produces neither outcome.
\<close>

theorem input_exhausted_no_outcome:
  "main [''yes'', ''yes'', ''Ann''] = Inl EOFError"
  by (simp add: run_defs)

text \<open>
  C7, amended. Every run ends in exactly one of four ways: \<open>EOFError\<close>, raised once the
  whole input has been read and a prompt asks for more; \<open>ValueError\<close>, raised by \<open>int\<close> on the
  age text; \<open>Cancelled\<close>; or \<open>Completed\<close>. \<open>Completed\<close> is produced only when six lines of the
  input, in step order, were accepted by the validators of first name, last name, age,
  citizenship, state and ZIP code and both guards passed; its record holds the six
  accepted values, in step order.
\<close>

theorem run_ends_one_way:
  "(\<exists>r. main_run s = (Inl EOFError, r, [])) \<or> main s = Inl ValueError \<or>
   (\<exists>msg. main s = Inr (Cancelled msg)) \<or>
   (\<exists>rf rl ra rc rs rz age st.
      main s = Inr (Completed
        [(''first'', VStr (py_strip rf)), (''last'', VStr (py_strip rl)),
         (''age'', VInt age), (''citizen'', VBool True),
         (''state'', VStr st), (''zip'', VStr (py_strip rz))]) \<and>
      subseq [rf, rl, ra, rc, rs, rz] s \<and>
      firstName_body rf = Accepted (VStr (py_strip rf)) \<and>
      lastName_body rl = Accepted (VStr (py_strip rl)) \<and>
      isValidAge_body ra = Accepted (VInt age) \<and> age_check (VInt age) = Inr () \<and>
      countryOfCitizenship_body rc = Accepted (VBool True) \<and>
      citizen_check (VBool True) = Inr () \<and>
      stateOfResidence_body rs = Accepted (VStr st) \<and>
      zipCode_body rz = Accepted (VStr (py_strip rz)))"
proof -
  have "main s = Inl EOFError \<Longrightarrow> \<exists>r. main_run s = (Inl EOFError, r, [])"
  proof -
    assume e: "main s = Inl EOFError"
    obtain x r s' where m: "main_run s = (x, r, s')" by (cases "main_run s")
    with e have "x = Inl EOFError" by (simp add: main_def)
    with m main_run_EOFError [of s r s'] show ?thesis by auto
  qed
  with main_outcome_cases [of s] show ?thesis by blast
qed

theorem run_ends_one_way_witness:
  "main [''yes'', ''yes'', ''Ann'', ''yes'', ''Lee'', ''yes'', ''25'', ''yes'', ''yes'',
         ''yes'', ''MD'', ''yes'', ''21201'']
     = Inr (Completed [(''first'', VStr ''Ann''), (''last'', VStr ''Lee''), (''age'', VInt 25),
                       (''citizen'', VBool True), (''state'', VStr ''MD''),
                       (''zip'', VStr ''21201'')]) \<and>
   main [''y'', ''no''] = Inr (Cancelled default_msg)"
  using run_ends_one_way [of "[''y'', ''no'']"]
  by (simp add: run_defs)

end
